theory Spec2Isabelle
  imports Complex_Main "HOL-Library.Word"
begin

section \<open>The page script \<open>script.js\<close>: data\<close>

text \<open>
  The script is one \<open>DOMContentLoaded\<close> handler that installs four event handlers and three
  helpers. Everything it does is a mutation of the page (DOM elements, \<open>window.audioBase64\<close>)
  or the registration of a callback (a timer, a \<open>FileReader\<close>). The page is a record, every
  handler is a function from pages to pages, and a registered callback is a datum in a queue
  of the page, run later by the event loop.
\<close>

subsection \<open>JavaScript numbers\<close>

text \<open>
  A number of the script is a finite value, one of the two infinities or \<open>NaN\<close> (which also
  stands for a value such as \<open>undefined\<close> that a comparison converts to \<open>NaN\<close>). A finite
  value is given by the rational that its decimal literal denotes.

  The only arithmetic of the script is \<open>count += 0.5\<close> from \<open>0\<close>, so the accumulator is a
  multiple of one half. Those are doubles up to \<open>2^52\<close>, where the sum is exact; at \<open>2^52\<close>
  the sum \<open>2^52 + 0.5\<close> lies half way between two doubles and is rounded back to \<open>2^52\<close>:
  the accumulator stays there. \<open>count >= target\<close> is false when the target is \<open>NaN\<close>; for
  a finite target it gives the same answer for the literal and for the double nearest to
  it, since every multiple of one half that the accumulator takes is a double.
\<close>

datatype jsnum = Num rat | PosInfinity | NegInfinity | NaN

definition add_half :: "rat \<Rightarrow> rat" where
  "add_half count = (if count < 2 ^ 52 then count + 1 / 2 else count)"

fun js_ge :: "rat \<Rightarrow> jsnum \<Rightarrow> bool" where
  "js_ge count (Num target) = (target \<le> count)"
| "js_ge count PosInfinity = False"
| "js_ge count NegInfinity = True"
| "js_ge count NaN = False"

text \<open>
  \<open>2000 / target\<close>, as the division of the reals gives it (JavaScript rounds the quotient to
  a double).
\<close>

fun js_div :: "rat \<Rightarrow> jsnum \<Rightarrow> jsnum" where
  "js_div a (Num b) =
     (if b \<noteq> 0 then Num (a / b)
      else if a = 0 then NaN else if 0 < a then PosInfinity else NegInfinity)"
| "js_div a PosInfinity = Num 0"
| "js_div a NegInfinity = Num 0"
| "js_div a NaN = NaN"

text \<open>
  \<open>Number.prototype.toFixed(1)\<close>: the nearest multiple of one tenth, the larger one of two
  equally near.
\<close>

definition toFixed1 :: "rat \<Rightarrow> rat" where
  "toFixed1 x = of_int (round (x * 10)) / 10"

subsection \<open>JavaScript strings\<close>

text \<open>
  The text given to the typewriter and the content of the element it writes are sequences
  of UTF-16 code units: \<open>text.length\<close> counts code units and \<open>text.charAt(i)\<close> is the
  \<open>i\<close>-th of them. The fixed texts of the script are ASCII and written as Isabelle strings;
  \<open>lit\<close> gives their code units.
\<close>

type_synonym code_unit = "16 word"

type_synonym jsstring = "code_unit list"

definition lit :: "string \<Rightarrow> jsstring" where
  "lit s = map (\<lambda>c. of_nat (of_char c)) s"

text \<open>
  \<open>element.innerHTML += c\<close> for one code unit \<open>c\<close>, on an element whose content is text
  (\<open>typeWriter\<close> has emptied it before) and is read by the parser as ordinary text (a
  paragraph or a division; in \<open>pre\<close> the parser would drop a line feed that comes first).
  The result is the text content of the element. The getter serialises the text, escaping every
  \<open>&\<close>, \<open><\<close>, \<open>>\<close> and no-break space; the setter parses the serialisation followed by \<open>c\<close>
  as markup. The escaped part parses back to the text. Of \<open>c\<close> the parser drops a NUL,
  turns a carriage return into a line feed, and takes every other code unit as text (a
  \<open><\<close> or \<open>&\<close> at the very end of the input starts no tag and no reference).
\<close>

definition innerHTML_append :: "jsstring \<Rightarrow> code_unit \<Rightarrow> jsstring" where
  "innerHTML_append html c =
     (if c = 0 then html else if c = 13 then html @ [10] else html @ [c])"

subsection \<open>Files, results, callbacks and the page\<close>

text \<open>A \<open>File\<close> object, as far as the script reads it (\<open>file.name\<close>) or hands it on.\<close>

record audio_file =
  name :: string
  mime :: string

text \<open>The object literal \<open>mockResponse\<close> of \<open>displayResults\<close>.\<close>

record response =
  lang :: string
  score :: jsnum
  isAI :: bool
  details :: string

text \<open>
  The callbacks handed to \<open>setTimeout\<close> and \<open>setInterval\<close>, with the variables each closure
  has captured:
  \<^item> \<open>AnalysisDone k\<close>: the arrow function of \<open>analyzeBtn.onclick\<close>; \<open>k\<close> is its \<open>scanLine\<close> element;
  \<^item> \<open>ScoreTick target count\<close>: the interval callback of \<open>animateScore\<close> with its \<open>target\<close> and
    the current value of its \<open>count\<close>;
  \<^item> \<open>TypeWriterCall str i\<close>: \<open>() => typeWriter(element, text, i + 1)\<close>, holding the next index.
\<close>

datatype task =
    AnalysisDone nat
  | ScoreTick jsnum rat
  | TypeWriterCall jsstring nat

datatype surface = Playback | Results

text \<open>
  The page. The texts that the script sets from its own literals are strings; \<open>scoreText\<close>
  is the number that the text of \<open>#score-value\<close> denotes (\<open>toFixed(1)\<close> and the conversion of
  \<open>target\<close> to a string both write it out); \<open>explanationHTML\<close> is the text content of
  \<open>#explanation-text\<close>. \<open>audioBase64\<close> is \<open>None\<close> where JavaScript has \<open>undefined\<close>. \<open>timers\<close>
  holds the pending timer callbacks with the time each is due, in the order they will run;
  \<open>readers\<close> the \<open>FileReader\<close>s that have not finished.
\<close>

record page =
  playbackHidden :: bool
  fileName :: string
  waveSource :: "audio_file option"
  waveReady :: bool
  playLabel :: string
  analyzeDisabled :: bool
  analyzeLabel :: string
  scanLines :: "nat list"
  nextElement :: nat
  resultsHidden :: bool
  labelText :: string
  labelColor :: string
  badgeText :: string
  scoreText :: jsnum
  explanationHTML :: jsstring
  scrolledTo :: "surface option"
  audioBase64 :: "string option"
  console :: "string list"
  readers :: "audio_file list"
  timers :: "(nat \<times> task) list"
  now :: nat

section \<open>Library functions the script calls\<close>

text \<open>\<open>String.prototype.split\<close> with a one-character separator: never the empty array.\<close>

fun split_on :: "char \<Rightarrow> string \<Rightarrow> string list" where
  "split_on sep [] = [[]]"
| "split_on sep (c # cs) =
     (if c = sep then [] # split_on sep cs
      else (case split_on sep cs of
              [] \<Rightarrow> [[c]]
            | p # ps \<Rightarrow> (c # p) # ps))"

text \<open>Reading an array at an index: \<open>undefined\<close> beyond its length.\<close>

definition at_index :: "'a list \<Rightarrow> nat \<Rightarrow> 'a option" where
  "at_index xs i = (if i < length xs then Some (xs ! i) else None)"

text \<open>
  The timer queue of the browser: a callback registered with a delay is due at \<open>now + delay\<close>
  and runs after every callback that is due no later and was registered before it.
\<close>

fun insert_timer :: "nat \<times> task \<Rightarrow> (nat \<times> task) list \<Rightarrow> (nat \<times> task) list" where
  "insert_timer e [] = [e]"
| "insert_timer e (x # xs) =
     (if fst e < fst x then e # x # xs else x # insert_timer e xs)"

definition setTimeout :: "task \<Rightarrow> nat \<Rightarrow> page \<Rightarrow> page" where
  "setTimeout t delay s = s\<lparr>timers := insert_timer (now s + delay, t) (timers s)\<rparr>"

text \<open>
  \<open>setInterval\<close> registers the first run of its callback like \<open>setTimeout\<close>. The browser
  registers the next run after each run that has not called \<open>clearInterval\<close>; in the model
  the callback does so itself, with the value its closure then holds.
\<close>

definition setInterval :: "task \<Rightarrow> nat \<Rightarrow> page \<Rightarrow> page" where
  "setInterval t delay s = setTimeout t delay s"

section \<open>The handlers and helpers of the script\<close>

subsection \<open>File handling\<close>

definition handleAudioUpload :: "audio_file \<Rightarrow> page \<Rightarrow> page" where
  "handleAudioUpload f s =
     (let s1 = s\<lparr>playbackHidden := False\<rparr>;
          s2 = s1\<lparr>fileName := name f\<rparr>;
          s3 = s2\<lparr>waveSource := Some f, waveReady := False\<rparr>;
          s4 = s3\<lparr>readers := readers s3 @ [f]\<rparr>
      in s4\<lparr>scrolledTo := Some Playback\<rparr>)"

text \<open>\<open>audioInput.onchange\<close>: \<open>e.target.files[0]\<close>, and nothing when there is no such file.\<close>

definition audioInput_onchange :: "audio_file list \<Rightarrow> page \<Rightarrow> page" where
  "audioInput_onchange files s =
     (case at_index files 0 of
        None \<Rightarrow> s
      | Some f \<Rightarrow> handleAudioUpload f s)"

text \<open>
  \<open>reader.onloadend\<close>. \<open>reader.result\<close> is \<open>null\<close> when the read failed; then \<open>.split\<close> throws and
  the callback ends without writing anything.
\<close>

definition reader_onloadend :: "string option \<Rightarrow> page \<Rightarrow> page" where
  "reader_onloadend result s =
     (case result of
        None \<Rightarrow> s
      | Some url \<Rightarrow>
          s\<lparr>audioBase64 := at_index (split_on CHR '','' url) 1,
            console := console s @ [''Audio encoded to Base64. Ready for API submission.'']\<rparr>)"

subsection \<open>Playback control\<close>

text \<open>
  \<open>playBtn.onclick\<close>. What \<open>wavesurfer.isPlaying()\<close> answers after \<open>playPause()\<close> is the
  renderer's business and comes in as \<open>playing\<close>. The play icon is the three bytes of U+25B6.
\<close>

definition playBtn_onclick :: "bool \<Rightarrow> page \<Rightarrow> page" where
  \<open>playBtn_onclick playing s =
     s\<lparr>playLabel :=
         (if playing then ''<span class="pause-icon">||</span> Pause''
          else ''<span class="play-icon">'' @ [CHR 0xE2, CHR 0x96, CHR 0xB6] @ ''</span> Play'')\<rparr>\<close>

subsection \<open>Results presentation\<close>

definition mockResponse :: response where
  "mockResponse =
     \<lparr>lang = ''Telugu'',
      score = Num (978 / 10),
      isAI = True,
      details = ''Neural vocoder artifacts detected. Spectral flux distribution is too consistent for human vocal cords. Lack of physiological micro-jitters in the 4kHz range.''\<rparr>"

text \<open>
  \<open>animateScore(element, target)\<close>, called on \<open>#score-value\<close> only. \<open>speed\<close> is computed as the
  source computes it and used as little. The interval callback is \<open>ScoreTick\<close>; \<open>score_tick\<close>
  is one run of it, which registers the next run unless it has called \<open>clearInterval\<close>.
\<close>

definition animateScore :: "jsnum \<Rightarrow> page \<Rightarrow> page" where
  "animateScore target s =
     (let count = 0;
          speed = js_div 2000 target
      in setInterval (ScoreTick target count) 10 s)"

definition score_tick :: "jsnum \<Rightarrow> rat \<Rightarrow> page \<Rightarrow> page" where
  "score_tick target count0 s =
     (let count = add_half count0;
          s1 = s\<lparr>scoreText := Num (toFixed1 count)\<rparr>
      in if js_ge count target then s1\<lparr>scoreText := target\<rparr>
         else setInterval (ScoreTick target count) 10 s1)"

text \<open>\<open>typeWriter(element, text, i = 0)\<close>, called on \<open>#explanation-text\<close> only.\<close>

definition typeWriter :: "jsstring \<Rightarrow> nat \<Rightarrow> page \<Rightarrow> page" where
  "typeWriter str i s =
     (let s1 = (if i = 0 then s\<lparr>explanationHTML := []\<rparr> else s)
      in if i < length str
         then setTimeout (TypeWriterCall str (i + 1)) 20
                (s1\<lparr>explanationHTML := innerHTML_append (explanationHTML s1) (str ! i)\<rparr>)
         else s1)"

text \<open>
  The body of \<open>displayResults\<close> below the declaration of \<open>mockResponse\<close>, with the object as
  a parameter, and \<open>displayResults\<close> itself.
\<close>

definition present :: "response \<Rightarrow> page \<Rightarrow> page" where
  "present r s =
     (let s1 = s\<lparr>resultsHidden := False\<rparr>;
          s2 = s1\<lparr>labelText := (if isAI r then ''AI-GENERATED VOICE'' else ''HUMAN VOICE DETECTED'')\<rparr>;
          s3 = s2\<lparr>labelColor := (if isAI r then ''#fb7185'' else ''#34d399'')\<rparr>;
          s4 = s3\<lparr>badgeText := lang r @ '' Detected''\<rparr>;
          s5 = animateScore (score r) s4;
          s6 = typeWriter (lit (''> [SYSTEM_REPORT]: '' @ details r)) 0 s5
      in s6\<lparr>scrolledTo := Some Results\<rparr>)"

definition displayResults :: "page \<Rightarrow> page" where
  "displayResults s = present mockResponse s"

subsection \<open>The analyze trigger\<close>

definition analyzeBtn_onclick :: "page \<Rightarrow> page" where
  \<open>analyzeBtn_onclick s =
     (let s1 = s\<lparr>analyzeDisabled := True\<rparr>;
          s2 = s1\<lparr>analyzeLabel := ''<span class="loader"></span> Analyzing Audio...''\<rparr>;
          scanLine = nextElement s2;
          s3 = s2\<lparr>nextElement := scanLine + 1, scanLines := scanLines s2 @ [scanLine]\<rparr>
      in setTimeout (AnalysisDone scanLine) 3000 s3)\<close>

definition analysis_done :: "nat \<Rightarrow> page \<Rightarrow> page" where
  "analysis_done scanLine s =
     (let s1 = s\<lparr>scanLines := removeAll scanLine (scanLines s)\<rparr>;
          s2 = displayResults s1;
          s3 = s2\<lparr>analyzeDisabled := False\<rparr>
      in s3\<lparr>analyzeLabel := ''Verify Authenticity''\<rparr>)"

section \<open>The event loop\<close>

fun run_task :: "task \<Rightarrow> page \<Rightarrow> page" where
  "run_task (AnalysisDone k) s = analysis_done k s"
| "run_task (ScoreTick target count) s = score_tick target count s"
| "run_task (TypeWriterCall str i) s = typeWriter str i s"

text \<open>
  What can happen to the page, one event at a time:
  \<^item> the user clicks the drop zone (the file dialog opens: no change of the page), picks
    files, clicks play (with the renderer's answer) or clicks the analyze trigger. The
    browser sends no click to a disabled button;
  \<^item> the \<open>k\<close>-th unfinished \<open>FileReader\<close> finishes with a result; the renderer becomes ready;
  \<^item> time passes;
  \<^item> the first timer callback of the queue runs, never before it is due.
  An event that cannot happen in a state leaves it as it is.
\<close>

datatype event =
    DropZoneClick
  | InputChange "audio_file list"
  | PlayClick bool
  | AnalyzeClick
  | LoadEnd nat "string option"
  | WaveReady
  | Elapse nat
  | TimerFire

fun step :: "event \<Rightarrow> page \<Rightarrow> page" where
  "step DropZoneClick s = s"
| "step (InputChange files) s = audioInput_onchange files s"
| "step (PlayClick playing) s = playBtn_onclick playing s"
| "step AnalyzeClick s = (if analyzeDisabled s then s else analyzeBtn_onclick s)"
| "step (LoadEnd k result) s =
     (if k < length (readers s)
      then reader_onloadend result (s\<lparr>readers := take k (readers s) @ drop (k + 1) (readers s)\<rparr>)
      else s)"
| "step WaveReady s = (if waveSource s = None then s else s\<lparr>waveReady := True\<rparr>)"
| "step (Elapse d) s = s\<lparr>now := now s + d\<rparr>"
| "step TimerFire s =
     (case timers s of
        [] \<Rightarrow> s
      | (due, t) # rest \<Rightarrow> if due \<le> now s then run_task t (s\<lparr>timers := rest\<rparr>) else s)"

fun run :: "event list \<Rightarrow> page \<Rightarrow> page" where
  "run [] s = s"
| "run (e # es) s = run es (step e s)"

text \<open>
  The page left alone: time passes up to the next timer, its callback runs, and so on for
  at most \<open>n\<close> callbacks or until the queue is empty.
\<close>

definition fire_next :: "page \<Rightarrow> page" where
  "fire_next s =
     (case timers s of
        [] \<Rightarrow> s
      | (due, t) # rest \<Rightarrow> step TimerFire (step (Elapse (due - now s)) s))"

fun drain :: "nat \<Rightarrow> page \<Rightarrow> page" where
  "drain 0 s = s"
| "drain (Suc n) s = drain n (fire_next s)"

text \<open>
  Modelled from the spec: the markup of the page, which the script does not contain. This
  is the page when the script has been installed: the playback and results surfaces start
  hidden and the trigger enabled with its default label, as the scenario of the
  specification has them; the other texts start empty.
\<close>

definition init :: page where
  "init =
     \<lparr>playbackHidden = True, fileName = [], waveSource = None, waveReady = False,
      playLabel = [], analyzeDisabled = False, analyzeLabel = ''Verify Authenticity'',
      scanLines = [], nextElement = 0, resultsHidden = True, labelText = [], labelColor = [],
      badgeText = [], scoreText = Num 0, explanationHTML = [], scrolledTo = None,
      audioBase64 = None, console = [], readers = [], timers = [], now = 0\<rparr>"

section \<open>Observations on events and pending callbacks\<close>

text \<open>A selection of at least one file: the events on which \<open>handleAudioUpload\<close> runs.\<close>

fun is_upload :: "event \<Rightarrow> bool" where
  "is_upload (InputChange (f # fs)) = True"
| "is_upload e = False"

text \<open>The kinds of pending callbacks, and the pending callbacks of each kind.\<close>

fun is_analysis :: "task \<Rightarrow> bool" where
  "is_analysis (AnalysisDone k) = True"
| "is_analysis (ScoreTick target count) = False"
| "is_analysis (TypeWriterCall str i) = False"

fun is_typing :: "task \<Rightarrow> bool" where
  "is_typing (AnalysisDone k) = False"
| "is_typing (ScoreTick target count) = False"
| "is_typing (TypeWriterCall str i) = True"

fun is_scoring :: "task \<Rightarrow> bool" where
  "is_scoring (AnalysisDone k) = False"
| "is_scoring (ScoreTick target count) = True"
| "is_scoring (TypeWriterCall str i) = False"

definition analyses :: "page \<Rightarrow> task list" where
  "analyses s = filter is_analysis (map snd (timers s))"

definition scorings :: "page \<Rightarrow> task list" where
  "scorings s = filter is_scoring (map snd (timers s))"

definition typings :: "page \<Rightarrow> task list" where
  "typings s = filter is_typing (map snd (timers s))"

text \<open>
  No analysis is under way: the trigger is enabled, the waveform has no scan line and no
  completion is pending.
\<close>

definition idle :: "page \<Rightarrow> bool" where
  "idle s \<longleftrightarrow> \<not> analyzeDisabled s \<and> scanLines s = [] \<and> analyses s = []"

text \<open>
  The states the trigger keeps the page in: the pending completions are those of the scan
  lines in the waveform, there is at most one, and the trigger is disabled exactly when
  there is one.
\<close>

definition guarded :: "page \<Rightarrow> bool" where
  "guarded s \<longleftrightarrow>
     analyses s = map AnalysisDone (scanLines s)
   \<and> length (scanLines s) \<le> 1
   \<and> (analyzeDisabled s \<longleftrightarrow> scanLines s \<noteq> [])"

text \<open>
  The ticks of an animation along a sequence of events: \<open>runs_next P e s\<close> says that the
  event \<open>e\<close> runs a callback of the kind \<open>P\<close> in the state \<open>s\<close>, and \<open>ticks P evs s\<close> counts
  the events of \<open>evs\<close> that do so, from \<open>s\<close> on.
\<close>

definition runs_next :: "(task \<Rightarrow> bool) \<Rightarrow> event \<Rightarrow> page \<Rightarrow> bool" where
  "runs_next P e s \<longleftrightarrow>
     e = TimerFire \<and>
     (case timers s of [] \<Rightarrow> False | (due, t) # rest \<Rightarrow> due \<le> now s \<and> P t)"

fun ticks :: "(task \<Rightarrow> bool) \<Rightarrow> event list \<Rightarrow> page \<Rightarrow> nat" where
  "ticks P [] s = 0"
| "ticks P (e # es) s = (if runs_next P e s then 1 else 0) + ticks P es (step e s)"

text \<open>
  The targets on which the count-up stops, and the tick on which it does: the first whose
  accumulator, a multiple of one half, has reached the target.
\<close>

fun halts :: "jsnum \<Rightarrow> bool" where
  "halts (Num target) = (target \<le> 2 ^ 52)"
| "halts NegInfinity = True"
| "halts PosInfinity = False"
| "halts NaN = False"

fun last_tick :: "jsnum \<Rightarrow> nat" where
  "last_tick (Num target) = max 1 (nat \<lceil>target / (1 / 2)\<rceil>)"
| "last_tick NegInfinity = 1"
| "last_tick PosInfinity = 0"
| "last_tick NaN = 0"

text \<open>
  The page \<open>k\<close> ticks into the one count-up towards \<open>S\<close> that is under way, with no
  completion of an analysis pending: before the last tick the callback is pending with the
  accumulator \<open>k / 2\<close>, which the display shows once a tick has run; from the last tick on
  nothing of the count-up is pending and the display shows \<open>S\<close>.
\<close>

definition counted :: "jsnum \<Rightarrow> nat \<Rightarrow> page \<Rightarrow> bool" where
  "counted S k s \<longleftrightarrow>
     analyses s = []
   \<and> k \<le> last_tick S
   \<and> (k < last_tick S \<longrightarrow> scorings s = [ScoreTick S (of_nat k / 2)])
   \<and> (0 < k \<and> k < last_tick S \<longrightarrow> scoreText s = Num (of_nat k / 2))
   \<and> (k = last_tick S \<longrightarrow> scorings s = [] \<and> scoreText s = S)"

text \<open>
  What the element shows when the code units of a text have been appended to the empty
  element one by one.
\<close>

definition shown :: "jsstring \<Rightarrow> jsstring" where
  "shown str = foldl innerHTML_append [] str"

text \<open>
  The page after \<open>k\<close> runs of the one typewriter for \<open>str\<close> that is under way (the call
  included), with no completion of an analysis pending: the element shows what the first
  \<open>k\<close> code units leave, the next run is pending as long as \<open>k\<close> is at most the length, and
  the run after that, which appends nothing, leaves nothing pending.
\<close>

definition typed :: "jsstring \<Rightarrow> nat \<Rightarrow> page \<Rightarrow> bool" where
  "typed str k s \<longleftrightarrow>
     analyses s = []
   \<and> 0 < k \<and> k \<le> length str + 1
   \<and> (k \<le> length str \<longrightarrow> typings s = [TypeWriterCall str k])
   \<and> (k = length str + 1 \<longrightarrow> typings s = [])
   \<and> explanationHTML s = shown (take k str)"

text \<open>
  How many timer callbacks a pending callback still stands for, itself included: the
  remaining runs of a count-up that stops and of the typewriter, and for the completion of
  an analysis itself and the two animations it starts. \<open>stopping s\<close> says that every
  count-up pending in \<open>s\<close> has a target on which it stops.
\<close>

fun ticks_left :: "task \<Rightarrow> nat" where
  "ticks_left (ScoreTick (Num target) count) = max 1 (nat \<lceil>2 * (target - count)\<rceil>)"
| "ticks_left (ScoreTick PosInfinity count) = 1"
| "ticks_left (ScoreTick NegInfinity count) = 1"
| "ticks_left (ScoreTick NaN count) = 1"
| "ticks_left (TypeWriterCall str i) = max 1 (length str + 1 - i)"
| "ticks_left (AnalysisDone k) =
     1 + last_tick (score mockResponse)
       + length (''> [SYSTEM_REPORT]: '' @ details mockResponse)"

definition work :: "page \<Rightarrow> nat" where
  "work s = sum_list (map (\<lambda>e. ticks_left (snd e)) (timers s))"

fun stops :: "task \<Rightarrow> bool" where
  "stops (ScoreTick target count) = halts target"
| "stops (TypeWriterCall str i) = True"
| "stops (AnalysisDone k) = True"

definition stopping :: "page \<Rightarrow> bool" where
  "stopping s \<longleftrightarrow> list_all (\<lambda>e. stops (snd e)) (timers s)"

text \<open>The page without the fields that the two animations and the clock write.\<close>

definition outside_animation :: "page \<Rightarrow> page" where
  "outside_animation s = s\<lparr>scoreText := Num 0, explanationHTML := [], timers := [], now := 0\<rparr>"

text \<open>
  What the page shows of a result besides the two animated texts, and the state of the
  trigger: whether the results surface is hidden, the label, its colour, the badge, whether
  the trigger is disabled, and its label.
\<close>

definition verdict :: "page \<Rightarrow> bool \<times> string \<times> string \<times> string \<times> bool \<times> string" where
  "verdict s =
     (resultsHidden s, labelText s, labelColor s, badgeText s, analyzeDisabled s, analyzeLabel s)"

section \<open>The event loop: basic facts\<close>

lemmas handler_defs =
  audioInput_onchange_def handleAudioUpload_def reader_onloadend_def playBtn_onclick_def
  analyzeBtn_onclick_def analysis_done_def displayResults_def present_def animateScore_def
  score_tick_def setInterval_def typeWriter_def setTimeout_def at_index_def

lemma fire_next_Nil: "timers s = [] \<Longrightarrow> fire_next s = s"
  by (simp add: fire_next_def)

lemma fire_next_Cons:
  "timers s = (due, t) # rest \<Longrightarrow>
   fire_next s = run_task t (s\<lparr>now := max (now s) due, timers := rest\<rparr>)"
  by (simp add: fire_next_def max_def)

lemma drain_Nil: "timers s = [] \<Longrightarrow> drain n s = s"
  by (induction n) (simp_all add: fire_next_Nil)

lemma drain_add: "drain (m + n) s = drain n (drain m s)"
  by (induction m arbitrary: s) simp_all

lemma drain_Suc_right: "drain (Suc n) s = fire_next (drain n s)"
  using drain_add [of n 1 s] by simp

lemma run_append: "run (xs @ ys) s = run ys (run xs s)"
  by (induction xs arbitrary: s) simp_all

section \<open>The classification label\<close>

text \<open>
  Claim C6. Whatever the result object and the page, the label and its colour after
  \<open>displayResults\<close>' body are \<open>AI-GENERATED VOICE\<close> in \<open>#fb7185\<close> when the flag is set and
  \<open>HUMAN VOICE DETECTED\<close> in \<open>#34d399\<close> when it is not; two results with the same flag give
  the same label and colour, on any two pages.
\<close>

theorem classification_is_binary:
  "(isAI r \<longrightarrow> labelText (present r s) = ''AI-GENERATED VOICE'' \<and> labelColor (present r s) = ''#fb7185'')
 \<and> (\<not> isAI r \<longrightarrow> labelText (present r s) = ''HUMAN VOICE DETECTED'' \<and> labelColor (present r s) = ''#34d399'')
 \<and> (isAI r = isAI r' \<longrightarrow> labelText (present r s) = labelText (present r' s')
        \<and> labelColor (present r s) = labelColor (present r' s'))"
  by (simp add: present_def animateScore_def setInterval_def typeWriter_def setTimeout_def Let_def)

theorem classification_is_binary_witness:
  "isAI mockResponse
 \<and> labelText (present mockResponse init) = ''AI-GENERATED VOICE''
 \<and> labelColor (present mockResponse init) = ''#fb7185''
 \<and> \<not> isAI (mockResponse\<lparr>isAI := False\<rparr>)
 \<and> labelText (present (mockResponse\<lparr>isAI := False\<rparr>) init) = ''HUMAN VOICE DETECTED''
 \<and> labelColor (present (mockResponse\<lparr>isAI := False\<rparr>) init) = ''#34d399''"
proof -
  have a: "isAI mockResponse" by (simp add: mockResponse_def)
  have b: "\<not> isAI (mockResponse\<lparr>isAI := False\<rparr>)" by simp
  show ?thesis
    using a b classification_is_binary [of mockResponse init mockResponse init]
      classification_is_binary [of "mockResponse\<lparr>isAI := False\<rparr>" init mockResponse init]
    by simp
qed

section \<open>File intake\<close>

lemma step_keeps_fileName: "\<not> is_upload e \<Longrightarrow> fileName (step e s) = fileName s"
proof (cases e)
  case (InputChange files)
  assume "\<not> is_upload e"
  with InputChange have "files = []" by (cases files) simp_all
  with InputChange show ?thesis by (simp add: handler_defs)
next
  case TimerFire
  show ?thesis
  proof (cases "timers s")
    case Nil
    with TimerFire show ?thesis by simp
  next
    case (Cons a rest)
    obtain due t where a: "a = (due, t)" by (cases a)
    show ?thesis
      unfolding TimerFire using Cons a
      by (cases t) (simp_all add: handler_defs Let_def)
  qed
qed (simp_all add: handler_defs Let_def split: option.splits)

lemma run_keeps_fileName:
  "\<forall>e \<in> set evs. \<not> is_upload e \<Longrightarrow> fileName (run evs s) = fileName s"
  by (induction evs arbitrary: s) (simp_all add: step_keeps_fileName)

text \<open>
  Claim C7. A selection \<open>f # fs\<close> is handled as the upload of its first file \<open>f\<close> alone: the
  other files leave no trace. After it the displayed name is the name of \<open>f\<close>, the renderer
  has been given \<open>f\<close> and one reader of \<open>f\<close> is pending. The displayed name is one string, and
  after any events \<open>evs\<close> (earlier uploads among them), the selection \<open>f # fs\<close> and any later
  events that are not uploads, it is the name of \<open>f\<close>.
\<close>

theorem latest_upload_is_current:
  "audioInput_onchange (f # fs) s = handleAudioUpload f s
 \<and> fileName (step (InputChange (f # fs)) s) = name f
 \<and> waveSource (step (InputChange (f # fs)) s) = Some f
 \<and> readers (step (InputChange (f # fs)) s) = readers s @ [f]
 \<and> ((\<forall>e \<in> set evs'. \<not> is_upload e) \<longrightarrow>
       fileName (run (evs @ InputChange (f # fs) # evs') s) = name f)"
proof -
  have "fileName (run (evs @ InputChange (f # fs) # evs') s) = name f"
    if "\<forall>e \<in> set evs'. \<not> is_upload e"
    using run_keeps_fileName [OF that]
    by (simp add: run_append audioInput_onchange_def handleAudioUpload_def at_index_def Let_def)
  then show ?thesis
    by (simp add: audioInput_onchange_def handleAudioUpload_def at_index_def Let_def)
qed

theorem latest_upload_is_current_witness:
  "filter is_upload [AnalyzeClick, Elapse 3000, TimerFire] = []
 \<and> fileName (run ([InputChange [\<lparr>name = ''first.wav'', mime = ''audio/wav''\<rparr>], PlayClick True]
        @ InputChange [\<lparr>name = ''sample.wav'', mime = ''audio/wav''\<rparr>,
                       \<lparr>name = ''other.mp3'', mime = ''audio/mpeg''\<rparr>]
        # [AnalyzeClick, Elapse 3000, TimerFire]) init) = ''sample.wav'' "
proof -
  have n: "\<forall>e \<in> set [AnalyzeClick, Elapse 3000, TimerFire]. \<not> is_upload e" by simp
  note th = latest_upload_is_current [of "\<lparr>name = ''sample.wav'', mime = ''audio/wav''\<rparr>"
      "[\<lparr>name = ''other.mp3'', mime = ''audio/mpeg''\<rparr>]" init
      "[AnalyzeClick, Elapse 3000, TimerFire]"
      "[InputChange [\<lparr>name = ''first.wav'', mime = ''audio/wav''\<rparr>], PlayClick True]"]
  from th n have "fileName (run ([InputChange [\<lparr>name = ''first.wav'', mime = ''audio/wav''\<rparr>], PlayClick True]
        @ InputChange [\<lparr>name = ''sample.wav'', mime = ''audio/wav''\<rparr>,
                       \<lparr>name = ''other.mp3'', mime = ''audio/mpeg''\<rparr>]
        # [AnalyzeClick, Elapse 3000, TimerFire]) init)
      = name \<lparr>name = ''sample.wav'', mime = ''audio/wav''\<rparr>"
    by blast
  then show ?thesis using n by simp
qed

text \<open>
  Claim C8. When \<open>handleAudioUpload\<close> returns, the playback surface is shown, the displayed
  name is the name of the file and the surface has been scrolled to; the encoded-audio slot
  is what it was before the call, this call's reader is pending (the last of the unfinished
  readers) and the renderer has been given the file and is not ready. The slot is written
  when the reader finishes, and the two completions may come in either order: the reader
  may finish while the renderer is not ready, the renderer may become ready while the slot
  is unwritten, and both orders end in the same page.
\<close>

theorem upload_sync_effects:
  "playbackHidden (handleAudioUpload f s) = False
 \<and> fileName (handleAudioUpload f s) = name f
 \<and> scrolledTo (handleAudioUpload f s) = Some Playback
 \<and> audioBase64 (handleAudioUpload f s) = audioBase64 s
 \<and> readers (handleAudioUpload f s) = readers s @ [f]
 \<and> waveSource (handleAudioUpload f s) = Some f
 \<and> waveReady (handleAudioUpload f s) = False
 \<and> audioBase64 (step (LoadEnd (length (readers s)) (Some url)) (handleAudioUpload f s))
      = at_index (split_on CHR '','' url) 1
 \<and> waveReady (step (LoadEnd (length (readers s)) (Some url)) (handleAudioUpload f s)) = False
 \<and> waveReady (step WaveReady (handleAudioUpload f s)) = True
 \<and> audioBase64 (step WaveReady (handleAudioUpload f s)) = audioBase64 s
 \<and> run [LoadEnd (length (readers s)) (Some url), WaveReady] (handleAudioUpload f s)
      = run [WaveReady, LoadEnd (length (readers s)) (Some url)] (handleAudioUpload f s)"
  by (simp add: handleAudioUpload_def reader_onloadend_def Let_def)

theorem upload_sync_effects_witness:
  "playbackHidden init
 \<and> \<not> playbackHidden (handleAudioUpload \<lparr>name = ''sample.wav'', mime = ''audio/wav''\<rparr> init)
 \<and> fileName (handleAudioUpload \<lparr>name = ''sample.wav'', mime = ''audio/wav''\<rparr> init) = ''sample.wav''
 \<and> audioBase64 (handleAudioUpload \<lparr>name = ''sample.wav'', mime = ''audio/wav''\<rparr> init) = None
 \<and> audioBase64 (step (LoadEnd 0 (Some ''data:audio/wav;base64,UklGRg==''))
       (handleAudioUpload \<lparr>name = ''sample.wav'', mime = ''audio/wav''\<rparr> init)) = Some ''UklGRg=='' "
proof -
  have r: "length (readers init) = 0" and a: "audioBase64 init = None" and h: "playbackHidden init"
    by (simp_all add: init_def)
  note th = upload_sync_effects [of "\<lparr>name = ''sample.wav'', mime = ''audio/wav''\<rparr>" init
      "''data:audio/wav;base64,UklGRg==''", unfolded r a]
  have sp: "at_index (split_on CHR '','' ''data:audio/wav;base64,UklGRg=='') 1 = Some ''UklGRg=='' "
    by (simp add: at_index_def)
  show ?thesis
    using h th sp by (simp del: step.simps)
qed






section \<open>What the handlers leave alone\<close>

lemma set_insert_timer: "set (insert_timer e xs) = insert e (set xs)"
  by (induction xs) auto

lemma filter_insert_timer_other:
  "\<not> P (snd e) \<Longrightarrow> filter P (map snd (insert_timer e xs)) = filter P (map snd xs)"
  by (induction xs) auto

lemma filter_insert_timer_first:
  "P (snd e) \<Longrightarrow> filter P (map snd xs) = [] \<Longrightarrow> filter P (map snd (insert_timer e xs)) = [snd e]"
  by (induction xs) (auto split: if_splits)

lemma analyses_timers_update [simp]:
  "analyses (s\<lparr>timers := ts\<rparr>) = filter is_analysis (map snd ts)"
  by (simp add: analyses_def)

lemma analyses_setTimeout_other:
  "\<not> is_analysis t \<Longrightarrow> analyses (setTimeout t d s) = analyses s"
  by (simp add: setTimeout_def analyses_def filter_insert_timer_other)

lemma score_tick_frame:
  "analyses (score_tick target count s) = analyses s"
  "scanLines (score_tick target count s) = scanLines s"
  "analyzeDisabled (score_tick target count s) = analyzeDisabled s"
  "resultsHidden (score_tick target count s) = resultsHidden s"
  "now (score_tick target count s) = now s"
  "set (timers s) \<subseteq> set (timers (score_tick target count s))"
  by (auto simp: score_tick_def setInterval_def setTimeout_def Let_def analyses_def filter_insert_timer_other
      set_insert_timer)

lemma typeWriter_frame:
  "analyses (typeWriter str i s) = analyses s"
  "scanLines (typeWriter str i s) = scanLines s"
  "analyzeDisabled (typeWriter str i s) = analyzeDisabled s"
  "resultsHidden (typeWriter str i s) = resultsHidden s"
  "now (typeWriter str i s) = now s"
  "set (timers s) \<subseteq> set (timers (typeWriter str i s))"
  by (auto simp: typeWriter_def setTimeout_def Let_def analyses_def filter_insert_timer_other
      set_insert_timer)

lemma animateScore_frame:
  "analyses (animateScore target s) = analyses s"
  "scanLines (animateScore target s) = scanLines s"
  "analyzeDisabled (animateScore target s) = analyzeDisabled s"
  "resultsHidden (animateScore target s) = resultsHidden s"
  "now (animateScore target s) = now s"
  "set (timers s) \<subseteq> set (timers (animateScore target s))"
  by (auto simp: animateScore_def setInterval_def setTimeout_def Let_def analyses_def filter_insert_timer_other
      set_insert_timer)

lemma displayResults_frame:
  "analyses (displayResults s) = analyses s"
  "scanLines (displayResults s) = scanLines s"
  "analyzeDisabled (displayResults s) = analyzeDisabled s"
  "resultsHidden (displayResults s) = False"
  "now (displayResults s) = now s"
  "set (timers s) \<subseteq> set (timers (displayResults s))"
proof -
  let ?a = "s\<lparr>resultsHidden := False,
        labelText := (if isAI mockResponse then ''AI-GENERATED VOICE'' else ''HUMAN VOICE DETECTED''),
        labelColor := (if isAI mockResponse then ''#fb7185'' else ''#34d399''),
        badgeText := lang mockResponse @ '' Detected''\<rparr>"
  let ?b = "animateScore (score mockResponse) ?a"
  let ?c = "typeWriter (lit (''> [SYSTEM_REPORT]: '' @ details mockResponse)) 0 ?b"
  have d: "displayResults s = ?c\<lparr>scrolledTo := Some Results\<rparr>"
    by (simp add: displayResults_def present_def Let_def)
  show "analyses (displayResults s) = analyses s"
    unfolding d by (simp add: analyses_def)
      (simp add: typeWriter_frame(1) [unfolded analyses_def] animateScore_frame(1) [unfolded analyses_def])
  show "scanLines (displayResults s) = scanLines s"
    unfolding d by (simp add: typeWriter_frame animateScore_frame)
  show "analyzeDisabled (displayResults s) = analyzeDisabled s"
    unfolding d by (simp add: typeWriter_frame animateScore_frame)
  show "resultsHidden (displayResults s) = False"
    unfolding d by (simp add: typeWriter_frame animateScore_frame)
  show "now (displayResults s) = now s"
    unfolding d by (simp add: typeWriter_frame animateScore_frame)
  have "set (timers s) = set (timers ?a)" by simp
  also have "\<dots> \<subseteq> set (timers ?b)" by (rule animateScore_frame)
  also have "\<dots> \<subseteq> set (timers ?c)" by (rule typeWriter_frame)
  finally show "set (timers s) \<subseteq> set (timers (displayResults s))"
    unfolding d by simp
qed

lemma analysis_done_frame:
  "analyses (analysis_done k s) = analyses s"
  "scanLines (analysis_done k s) = removeAll k (scanLines s)"
  "analyzeDisabled (analysis_done k s) = False"
  "resultsHidden (analysis_done k s) = False"
  "analyzeLabel (analysis_done k s) = ''Verify Authenticity''"
  "now (analysis_done k s) = now s"
  "set (timers s) \<subseteq> set (timers (analysis_done k s))"
proof -
  let ?a = "s\<lparr>scanLines := removeAll k (scanLines s)\<rparr>"
  have d: "analysis_done k s =
      (displayResults ?a)\<lparr>analyzeDisabled := False, analyzeLabel := ''Verify Authenticity''\<rparr>"
    by (simp add: analysis_done_def Let_def)
  have a: "analyses ?a = analyses s" by (simp add: analyses_def)
  show "analyses (analysis_done k s) = analyses s"
    unfolding d using displayResults_frame(1) [of ?a] a by (simp add: analyses_def)
  show "scanLines (analysis_done k s) = removeAll k (scanLines s)"
    unfolding d by (simp add: displayResults_frame)
  show "analyzeDisabled (analysis_done k s) = False" unfolding d by simp
  show "resultsHidden (analysis_done k s) = False" unfolding d by (simp add: displayResults_frame)
  show "analyzeLabel (analysis_done k s) = ''Verify Authenticity''" unfolding d by simp
  show "now (analysis_done k s) = now s" unfolding d by (simp add: displayResults_frame)
  show "set (timers s) \<subseteq> set (timers (analysis_done k s))"
    unfolding d using displayResults_frame(6) [of ?a] by simp
qed

lemma analyzeBtn_onclick_frame:
  "scanLines (analyzeBtn_onclick s) = scanLines s @ [nextElement s]"
  "analyzeDisabled (analyzeBtn_onclick s) = True"
  "resultsHidden (analyzeBtn_onclick s) = resultsHidden s"
  "now (analyzeBtn_onclick s) = now s"
  "timers (analyzeBtn_onclick s) = insert_timer (now s + 3000, AnalysisDone (nextElement s)) (timers s)"
  by (simp_all add: analyzeBtn_onclick_def setTimeout_def Let_def)

text \<open>Events that are no timer and no click on the trigger touch none of the fields below.\<close>

lemma other_events_frame:
  assumes "e \<noteq> TimerFire" and "e \<noteq> AnalyzeClick"
  shows "timers (step e s) = timers s" and "scanLines (step e s) = scanLines s"
    and "analyzeDisabled (step e s) = analyzeDisabled s"
    and "resultsHidden (step e s) = resultsHidden s" and "now s \<le> now (step e s)"
  using assms
  by (cases e; simp add: audioInput_onchange_def handleAudioUpload_def reader_onloadend_def
      playBtn_onclick_def Let_def split: option.splits)+

lemma other_events_analyses:
  "e \<noteq> TimerFire \<Longrightarrow> e \<noteq> AnalyzeClick \<Longrightarrow> analyses (step e s) = analyses s"
  by (simp add: analyses_def other_events_frame)

lemma run_task_frame:
  "now (run_task t s) = now s"
  "set (timers s) \<subseteq> set (timers (run_task t s))"
  "\<not> is_analysis t \<Longrightarrow> analyses (run_task t s) = analyses s"
  "\<not> is_analysis t \<Longrightarrow> scanLines (run_task t s) = scanLines s"
  "\<not> is_analysis t \<Longrightarrow> analyzeDisabled (run_task t s) = analyzeDisabled s"
  "\<not> is_analysis t \<Longrightarrow> resultsHidden (run_task t s) = resultsHidden s"
  by (cases t; simp add: analysis_done_frame score_tick_frame typeWriter_frame)+

section \<open>No result without an analysis\<close>

lemma step_keeps_hidden:
  assumes "e \<noteq> AnalyzeClick" and "resultsHidden s" and "analyses s = []"
  shows "resultsHidden (step e s) \<and> analyses (step e s) = []"
proof (cases "e = TimerFire")
  case False
  then show ?thesis using assms by (simp add: other_events_frame other_events_analyses)
next
  case True
  show ?thesis
  proof (cases "timers s")
    case Nil
    then show ?thesis using True assms by simp
  next
    case (Cons a rest)
    obtain due t where a: "a = (due, t)" by (cases a)
    have t: "\<not> is_analysis t" and r: "filter is_analysis (map snd rest) = []"
      using assms(3) Cons a by (auto simp: analyses_def split: if_splits)
    show ?thesis
      using True Cons a assms(2,3) t r by (simp add: run_task_frame)
  qed
qed

lemma run_keeps_hidden:
  "AnalyzeClick \<notin> set evs \<Longrightarrow> resultsHidden s \<Longrightarrow> analyses s = [] \<Longrightarrow>
   resultsHidden (run evs s) \<and> analyses (run evs s) = []"
proof (induction evs arbitrary: s)
  case Nil
  then show ?case by simp
next
  case (Cons e evs)
  from Cons.prems have "e \<noteq> AnalyzeClick" and "AnalyzeClick \<notin> set evs" by auto
  with step_keeps_hidden [OF this(1) Cons.prems(2,3)] Cons.IH [of "step e s"]
  show ?case by simp
qed

text \<open>
  Claim C5, as amended. On a page whose results surface is hidden and which has no
  completion of an analysis pending, the results surface becomes visible only after the
  analyze trigger has been activated: every sequence of events that ends with the surface
  visible contains a click on the trigger. The script asks for no upload.
\<close>

theorem result_needs_analysis:
  assumes "resultsHidden s" and "analyses s = []" and "\<not> resultsHidden (run evs s)"
  shows "AnalyzeClick \<in> set evs"
  using run_keeps_hidden [OF _ assms(1,2), of evs] assms(3) by blast

theorem result_needs_analysis_witness:
  "resultsHidden init \<and> analyses init = []
 \<and> \<not> resultsHidden (run [AnalyzeClick, Elapse 3000, TimerFire] init)
 \<and> AnalyzeClick \<in> set [AnalyzeClick, Elapse 3000, TimerFire]"
proof -
  have a: "resultsHidden init" and b: "analyses init = []"
    by (simp_all add: init_def analyses_def)
  have c: "\<not> resultsHidden (run [AnalyzeClick, Elapse 3000, TimerFire] init)"
    by (simp add: init_def handler_defs Let_def)
  show ?thesis using a b c result_needs_analysis [OF a b c] by simp
qed

text \<open>
  Claim C5 as stated fails: on the fresh page a click on the trigger, three seconds and the
  timer show the results, while no file was ever selected (the playback surface is still
  hidden and the displayed name untouched).
\<close>

theorem result_without_upload:
  "\<not> resultsHidden (run [AnalyzeClick, Elapse 3000, TimerFire] init)
 \<and> filter is_upload [AnalyzeClick, Elapse 3000, TimerFire] = []
 \<and> playbackHidden (run [AnalyzeClick, Elapse 3000, TimerFire] init)
 \<and> fileName (run [AnalyzeClick, Elapse 3000, TimerFire] init) = fileName init
 \<and> resultsHidden init"
  by (simp add: init_def handler_defs Let_def)

section \<open>The trigger while an analysis is pending\<close>

lemma idle_guarded: "idle s \<Longrightarrow> guarded s"
  by (simp add: idle_def guarded_def)

lemma guarded_head_analysis:
  assumes "guarded s" and "timers s = (due, AnalysisDone k) # rest"
  shows "scanLines s = [k]" and "filter is_analysis (map snd rest) = []" and "analyzeDisabled s"
proof -
  have a: "AnalysisDone k # filter is_analysis (map snd rest) = map AnalysisDone (scanLines s)"
    using assms by (simp add: guarded_def analyses_def)
  then obtain x xs where l: "scanLines s = x # xs" by (cases "scanLines s") auto
  moreover have "length (scanLines s) \<le> 1" using assms(1) by (simp add: guarded_def)
  ultimately have xs: "xs = []" by simp
  with a l show "scanLines s = [k]" and "filter is_analysis (map snd rest) = []" by auto
  then show "analyzeDisabled s" using assms(1) by (simp add: guarded_def)
qed

lemma step_guarded:
  assumes "guarded s"
  shows "guarded (step e s)"
proof (cases "e = TimerFire \<or> e = AnalyzeClick")
  case False
  then show ?thesis
    using assms by (simp add: guarded_def other_events_frame other_events_analyses)
next
  case True
  then show ?thesis
  proof
    assume e: "e = AnalyzeClick"
    show ?thesis
    proof (cases "analyzeDisabled s")
      case True
      then show ?thesis using e assms by simp
    next
      case False
      then have "scanLines s = []" and "filter is_analysis (map snd (timers s)) = []"
        using assms by (simp_all add: guarded_def analyses_def)
      then show ?thesis
        using e False
        by (simp add: guarded_def analyses_def analyzeBtn_onclick_frame filter_insert_timer_first)
    qed
  next
    assume e: "e = TimerFire"
    show ?thesis
    proof (cases "timers s")
      case Nil
      then show ?thesis using e assms by simp
    next
      case (Cons a rest)
      obtain due t where a: "a = (due, t)" by (cases a)
      show ?thesis
      proof (cases "due \<le> now s")
        case False
        then show ?thesis using e Cons a assms by simp
      next
        case due: True
        show ?thesis
        proof (cases "is_analysis t")
          case False
          then have "analyses (s\<lparr>timers := rest\<rparr>) = analyses s"
            using Cons a by (simp add: analyses_def)
          then have "guarded (s\<lparr>timers := rest\<rparr>)"
            using assms unfolding guarded_def by simp
          then have "guarded (run_task t (s\<lparr>timers := rest\<rparr>))"
            unfolding guarded_def
            by (simp add: run_task_frame(3) [OF False] run_task_frame(4) [OF False]
                run_task_frame(5) [OF False])
          then show ?thesis using e Cons a due by simp
        next
          case True
          then obtain k where t: "t = AnalysisDone k" by (cases t) simp_all
          note h = guarded_head_analysis [OF assms Cons [unfolded a t]]
          have "guarded (analysis_done k (s\<lparr>timers := rest\<rparr>))"
            unfolding guarded_def using h by (simp add: analysis_done_frame)
          then show ?thesis using e Cons a t due by simp
        qed
      qed
    qed
  qed
qed

lemma run_guarded: "guarded s \<Longrightarrow> guarded (run evs s)"
  by (induction evs arbitrary: s) (simp_all add: step_guarded)

text \<open>A callback due at \<open>D\<close> is still in the queue as long as the clock is before \<open>D\<close>.\<close>

lemma step_keeps_pending:
  assumes "now s < D \<longrightarrow> (D, t) \<in> set (timers s)"
  shows "now (step e s) < D \<longrightarrow> (D, t) \<in> set (timers (step e s))"
proof (cases "e = TimerFire \<or> e = AnalyzeClick")
  case False
  then show ?thesis
    using assms other_events_frame(5) [of e s] by (auto simp: other_events_frame(1))
next
  case True
  then show ?thesis
  proof
    assume e: "e = AnalyzeClick"
    show ?thesis using e assms by (auto simp: analyzeBtn_onclick_frame set_insert_timer)
  next
    assume e: "e = TimerFire"
    show ?thesis
    proof (cases "timers s")
      case Nil
      then show ?thesis using e assms by simp
    next
      case (Cons a rest)
      obtain due u where a: "a = (due, u)" by (cases a)
      show ?thesis
      proof (cases "due \<le> now s")
        case False
        then show ?thesis using e Cons a assms by simp
      next
        case True
        have "(D, t) \<in> set (timers (run_task u (s\<lparr>timers := rest\<rparr>)))" if "now s < D"
        proof -
          from that assms Cons a True have "(D, t) \<in> set rest" by auto
          then show ?thesis using run_task_frame(2) [of "s\<lparr>timers := rest\<rparr>" u] by auto
        qed
        then show ?thesis using e Cons a True by (simp add: run_task_frame(1))
      qed
    qed
  qed
qed

lemma run_keeps_pending:
  "now s < D \<longrightarrow> (D, t) \<in> set (timers s) \<Longrightarrow>
   now (run evs s) < D \<longrightarrow> (D, t) \<in> set (timers (run evs s))"
proof (induction evs arbitrary: s)
  case Nil
  then show ?case by simp
next
  case (Cons e evs)
  from step_keeps_pending [OF Cons.prems] Cons.IH [of "step e s"] show ?case by simp
qed

lemma pending_analysis_disables:
  assumes "guarded s" and "(D, AnalysisDone k) \<in> set (timers s)"
  shows "analyzeDisabled s"
proof -
  have "AnalysisDone k \<in> set (analyses s)"
    using assms(2) by (force simp: analyses_def)
  then have "scanLines s \<noteq> []" using assms(1) by (auto simp: guarded_def)
  then show ?thesis using assms(1) by (simp add: guarded_def)
qed

lemma reenabled_by_completion:
  assumes "analyzeDisabled s" and "\<not> analyzeDisabled (step e s)"
  shows "e = TimerFire \<and> (\<exists>due k rest. timers s = (due, AnalysisDone k) # rest \<and> due \<le> now s)"
proof (cases "e = TimerFire \<or> e = AnalyzeClick")
  case False
  then show ?thesis using assms by (simp add: other_events_frame)
next
  case True
  then show ?thesis
  proof
    assume "e = AnalyzeClick"
    then show ?thesis using assms by simp
  next
    assume e: "e = TimerFire"
    show ?thesis
    proof (cases "timers s")
      case Nil
      then show ?thesis using e assms by simp
    next
      case (Cons a rest)
      obtain due t where a: "a = (due, t)" by (cases a)
      have due: "due \<le> now s"
        using assms e Cons a by (auto split: if_splits)
      have "is_analysis t"
      proof (rule ccontr)
        assume "\<not> is_analysis t"
        then have "analyzeDisabled (step e s) = analyzeDisabled s"
          using e Cons a due by (simp add: run_task_frame)
        with assms show False by simp
      qed
      then obtain k where "t = AnalysisDone k" by (cases t) simp_all
      then show ?thesis using e Cons a due by simp
    qed
  qed
qed

lemma guarded_analysis_is_head:
  assumes "guarded s" and "timers s = (due, AnalysisDone k) # rest"
    and "(D, AnalysisDone j) \<in> set (timers s)"
  shows "D = due"
proof (rule ccontr)
  assume "D \<noteq> due"
  with assms(2,3) have "(D, AnalysisDone j) \<in> set rest" by auto
  then have "AnalysisDone j \<in> set (filter is_analysis (map snd rest))" by force
  with guarded_head_analysis(2) [OF assms(1,2)] show False by simp
qed

text \<open>
  Claim C2. Let the page have started idle, let \<open>s\<close> be any state it has reached with the
  trigger enabled, and let the trigger be activated there. Then the trigger is disabled at
  once, with one scan line in the waveform and the completion due 3000 ms later. After any
  further events the trigger is disabled as long as the clock is before that time; at most
  one completion is ever pending, and the trigger is disabled exactly when one is; a click
  on the disabled trigger changes nothing. The only event that turns the trigger from
  disabled to enabled is the timer running a due completion, no earlier than 3000 ms after
  the activation, and that same event removes the scan line, shows the results, restores
  the default label and leaves no completion pending.
\<close>

theorem trigger_disabled_while_analyzing:
  assumes "idle s0" and "s = run evs s0" and "\<not> analyzeDisabled s"
    and "s1 = step AnalyzeClick s"
  shows "analyzeDisabled s1
       \<and> scanLines s1 = [nextElement s]
       \<and> timers s1 = insert_timer (now s + 3000, AnalysisDone (nextElement s)) (timers s)
       \<and> (\<forall>evs'. now (run evs' s1) < now s + 3000 \<longrightarrow> analyzeDisabled (run evs' s1))
       \<and> (\<forall>evs'. length (analyses (run evs' s1)) \<le> 1
             \<and> (analyzeDisabled (run evs' s1) \<longleftrightarrow> analyses (run evs' s1) \<noteq> []))
       \<and> (\<forall>evs'. analyzeDisabled (run evs' s1) \<longrightarrow> step AnalyzeClick (run evs' s1) = run evs' s1)
       \<and> (\<forall>evs' e. analyzeDisabled (run evs' s1) \<and> \<not> analyzeDisabled (step e (run evs' s1)) \<longrightarrow>
             e = TimerFire
           \<and> (\<exists>due k rest. timers (run evs' s1) = (due, AnalysisDone k) # rest
                 \<and> due \<le> now (run evs' s1))
           \<and> now s + 3000 \<le> now (run evs' s1)
           \<and> scanLines (step e (run evs' s1)) = []
           \<and> \<not> resultsHidden (step e (run evs' s1))
           \<and> analyzeLabel (step e (run evs' s1)) = ''Verify Authenticity''
           \<and> analyses (step e (run evs' s1)) = [])"
proof -
  have gs: "guarded s" unfolding assms(2) by (rule run_guarded) (rule idle_guarded, rule assms(1))
  have s1: "s1 = analyzeBtn_onclick s" using assms(3,4) by simp
  have g1: "guarded s1" unfolding assms(4) by (rule step_guarded) (rule gs)
  have g: "guarded (run evs' s1)" for evs' by (rule run_guarded) (rule g1)
  have empty: "scanLines s = []" using gs assms(3) by (simp add: guarded_def)
  have a: "analyzeDisabled s1" and b: "scanLines s1 = [nextElement s]"
    and c: "timers s1 = insert_timer (now s + 3000, AnalysisDone (nextElement s)) (timers s)"
    unfolding s1 using empty by (simp_all add: analyzeBtn_onclick_frame)
  have p1: "now s1 < now s + 3000 \<longrightarrow> (now s + 3000, AnalysisDone (nextElement s)) \<in> set (timers s1)"
    unfolding c by (simp add: set_insert_timer)
  note pend = run_keeps_pending [OF p1]
  have d: "analyzeDisabled (run evs' s1)" if "now (run evs' s1) < now s + 3000" for evs'
    using pend [of evs'] that pending_analysis_disables [OF g] by blast
  have f: "length (analyses (run evs' s1)) \<le> 1
      \<and> (analyzeDisabled (run evs' s1) \<longleftrightarrow> analyses (run evs' s1) \<noteq> [])" for evs'
    using g [of evs'] by (simp add: guarded_def)
  have h: "e = TimerFire
      \<and> (\<exists>due k rest. timers (run evs' s1) = (due, AnalysisDone k) # rest \<and> due \<le> now (run evs' s1))
      \<and> now s + 3000 \<le> now (run evs' s1)
      \<and> scanLines (step e (run evs' s1)) = []
      \<and> \<not> resultsHidden (step e (run evs' s1))
      \<and> analyzeLabel (step e (run evs' s1)) = ''Verify Authenticity''
      \<and> analyses (step e (run evs' s1)) = []"
    if dis: "analyzeDisabled (run evs' s1)" and en: "\<not> analyzeDisabled (step e (run evs' s1))"
    for evs' e
  proof -
    let ?s = "run evs' s1"
    from reenabled_by_completion [OF dis en] obtain due k rest
      where e: "e = TimerFire" and t: "timers ?s = (due, AnalysisDone k) # rest"
        and due: "due \<le> now ?s"
      by blast
    note hd = guarded_head_analysis [OF g t]
    have st: "step e ?s = analysis_done k (?s\<lparr>timers := rest\<rparr>)"
      using e t due by simp
    have late: "now s + 3000 \<le> now ?s"
    proof (rule ccontr)
      assume "\<not> now s + 3000 \<le> now ?s"
      then have lt: "now ?s < now s + 3000" by simp
      with pend [of evs'] have "(now s + 3000, AnalysisDone (nextElement s)) \<in> set (timers ?s)"
        by simp
      from guarded_analysis_is_head [OF g t this] due lt show False by simp
    qed
    have post: "scanLines (step e ?s) = []" "\<not> resultsHidden (step e ?s)"
      "analyzeLabel (step e ?s) = ''Verify Authenticity''" "analyses (step e ?s) = []"
      unfolding st using hd by (simp_all add: analysis_done_frame)
    show ?thesis using e t due late post by blast
  qed
  have i: "step AnalyzeClick (run evs' s1) = run evs' s1" if "analyzeDisabled (run evs' s1)" for evs'
    using that by simp
  show ?thesis
    using a b c d f h i by blast
qed

theorem trigger_disabled_while_analyzing_witness:
  "idle init
 \<and> \<not> analyzeDisabled (run [InputChange [\<lparr>name = ''sample.wav'', mime = ''audio/wav''\<rparr>]] init)
 \<and> analyzeDisabled
      (step AnalyzeClick (run [InputChange [\<lparr>name = ''sample.wav'', mime = ''audio/wav''\<rparr>]] init))
 \<and> now (run [Elapse 2999, TimerFire]
      (step AnalyzeClick (run [InputChange [\<lparr>name = ''sample.wav'', mime = ''audio/wav''\<rparr>]] init)))
      < now (run [InputChange [\<lparr>name = ''sample.wav'', mime = ''audio/wav''\<rparr>]] init) + 3000
 \<and> analyzeDisabled (run [Elapse 2999, TimerFire]
      (step AnalyzeClick (run [InputChange [\<lparr>name = ''sample.wav'', mime = ''audio/wav''\<rparr>]] init)))
 \<and> analyzeDisabled (run [Elapse 3000]
      (step AnalyzeClick (run [InputChange [\<lparr>name = ''sample.wav'', mime = ''audio/wav''\<rparr>]] init)))
 \<and> \<not> analyzeDisabled (step TimerFire (run [Elapse 3000]
      (step AnalyzeClick (run [InputChange [\<lparr>name = ''sample.wav'', mime = ''audio/wav''\<rparr>]] init))))
 \<and> scanLines (step TimerFire (run [Elapse 3000]
      (step AnalyzeClick (run [InputChange [\<lparr>name = ''sample.wav'', mime = ''audio/wav''\<rparr>]] init)))) = []"
proof -
  define s where "s = run [InputChange [\<lparr>name = ''sample.wav'', mime = ''audio/wav''\<rparr>]] init"
  define s1 where "s1 = step AnalyzeClick s"
  have i: "idle init" by (simp add: idle_def analyses_def init_def)
  have n: "\<not> analyzeDisabled s" and t0: "now s = 0"
    by (simp_all add: s_def init_def handler_defs Let_def)
  note th = trigger_disabled_while_analyzing [OF i s_def n s1_def]
  have a: "analyzeDisabled s1" using th by (rule conjunct1)
  have early: "now (run [Elapse 2999, TimerFire] s1) < now s + 3000"
    by (simp add: s1_def s_def init_def handler_defs Let_def)
  from th have "now (run [Elapse 2999, TimerFire] s1) < now s + 3000
      \<longrightarrow> analyzeDisabled (run [Elapse 2999, TimerFire] s1)"
    by blast
  with early have b: "analyzeDisabled (run [Elapse 2999, TimerFire] s1)" by (rule rev_mp)
  have c: "analyzeDisabled (run [Elapse 3000] s1)"
    by (simp add: s1_def s_def init_def handler_defs Let_def)
  have d: "\<not> analyzeDisabled (step TimerFire (run [Elapse 3000] s1))"
    by (simp add: s1_def s_def init_def handler_defs Let_def)
  from th c d have e: "scanLines (step TimerFire (run [Elapse 3000] s1)) = []"
    by blast
  show ?thesis
    using i n a early b c d e unfolding s1_def s_def by blast
qed

section \<open>The encoded audio\<close>




section \<open>Code units and what the element shows\<close>

lemma length_lit [simp]: "length (lit s) = length s"
  by (simp add: lit_def)

lemma lit_eq_Nil [simp]: "lit s = [] \<longleftrightarrow> s = []"
  by (simp add: lit_def)

lemma of_char_less_256: "(of_char c :: nat) < 256"
proof -
  have "(of_char c :: nat) mod 256 < 256" by (rule mod_less_divisor) simp
  then show ?thesis by simp
qed

lemma code_unit_of_char:
  assumes "n < 256"
  shows "(of_nat (of_char c) :: code_unit) = of_nat n \<longleftrightarrow> of_char c = n"
proof
  assume "(of_nat (of_char c) :: code_unit) = of_nat n"
  then have "unat (of_nat (of_char c) :: code_unit) = unat (of_nat n :: code_unit)" by simp
  then show "of_char c = n"
    using assms of_char_less_256 [of c] by (simp add: unat_of_nat)
next
  assume "of_char c = n"
  then show "(of_nat (of_char c) :: code_unit) = of_nat n" by simp
qed

lemma lit_plain:
  assumes "CHR 0x00 \<notin> set s" and "CHR 0x0D \<notin> set s"
  shows "0 \<notin> set (lit s)" and "13 \<notin> set (lit s)"
proof -
  have z: "(of_nat (of_char c) :: code_unit) = 0 \<longleftrightarrow> c = CHR 0x00" for c
  proof -
    have "(of_nat (of_char c) :: code_unit) = of_nat 0 \<longleftrightarrow> of_char c = (0::nat)"
      by (rule code_unit_of_char) simp
    also have "\<dots> \<longleftrightarrow> of_char c = (of_char (CHR 0x00) :: nat)" by simp
    also have "\<dots> \<longleftrightarrow> c = CHR 0x00" by (rule of_char_eq_iff)
    finally show ?thesis by simp
  qed
  have r: "(of_nat (of_char c) :: code_unit) = 13 \<longleftrightarrow> c = CHR 0x0D" for c
  proof -
    have "(of_nat (of_char c) :: code_unit) = of_nat 13 \<longleftrightarrow> of_char c = (13::nat)"
      by (rule code_unit_of_char) simp
    also have "\<dots> \<longleftrightarrow> of_char c = (of_char (CHR 0x0D) :: nat)" by simp
    also have "\<dots> \<longleftrightarrow> c = CHR 0x0D" by (rule of_char_eq_iff)
    finally show ?thesis by simp
  qed
  show "0 \<notin> set (lit s)" using assms(1) by (auto simp: lit_def z)
  show "13 \<notin> set (lit s)" using assms(2) by (auto simp: lit_def r)
qed

lemma shown_Nil [simp]: "shown [] = []"
  by (simp add: shown_def)

lemma shown_snoc: "shown (xs @ [c]) = innerHTML_append (shown xs) c"
  by (simp add: shown_def)

lemma shown_take_Suc:
  "k < length str \<Longrightarrow> shown (take (Suc k) str) = innerHTML_append (shown (take k str)) (str ! k)"
  by (simp add: take_Suc_conv_app_nth shown_snoc)

lemma shown_filter:
  "shown str = map (\<lambda>c. if c = 13 then 10 else c) (filter (\<lambda>c. c \<noteq> 0) str)"
  by (induction str rule: rev_induct) (simp_all add: shown_snoc innerHTML_append_def)

lemma shown_plain: "0 \<notin> set str \<Longrightarrow> 13 \<notin> set str \<Longrightarrow> shown str = str"
  by (induction str rule: rev_induct) (simp_all add: shown_snoc innerHTML_append_def)

lemma shown_lit: "CHR 0x00 \<notin> set s \<Longrightarrow> CHR 0x0D \<notin> set s \<Longrightarrow> shown (lit s) = lit s"
  by (rule shown_plain) (rule lit_plain; assumption)+

section \<open>The accumulator\<close>

lemma toFixed1_half: "toFixed1 (of_nat k / 2) = of_nat k / 2"
proof -
  have "(of_nat k / 2 :: rat) * 10 = of_int (int (5 * k))" by simp
  then have "round ((of_nat k / 2 :: rat) * 10) = int (5 * k)"
    by (simp only: round_of_int)
  then show ?thesis by (simp add: toFixed1_def)
qed

lemma ceil_mock: "nat \<lceil>2 * (978 / 10 :: rat)\<rceil> = 196"
proof -
  have "\<lceil>2 * (978 / 10 :: rat)\<rceil> = 196" by (rule ceiling_unique) simp_all
  then show ?thesis by simp
qed

lemma last_tick_Num: "last_tick (Num r) = max 1 (nat \<lceil>2 * r\<rceil>)"
proof -
  have "r / (1 / 2) = 2 * r" by simp
  then show ?thesis by (simp only: last_tick.simps)
qed

lemma last_tick_pos: "halts S \<Longrightarrow> 0 < last_tick S"
  by (cases S) (simp_all add: last_tick_Num del: last_tick.simps(1))

text \<open>Before the last tick the accumulator is below \<open>2^52\<close>, where adding one half is exact.\<close>

lemma below_last_tick:
  assumes "halts S" and "k < last_tick S"
  shows "add_half (of_nat k / 2) = of_nat (Suc k) / 2"
proof -
  have "of_nat k / 2 < (2::rat) ^ 52"
  proof (cases S)
    case (Num r)
    show ?thesis
    proof (cases "k = 0")
      case True
      then show ?thesis by simp
    next
      case False
      then have "k < nat \<lceil>2 * r\<rceil>" using assms(2) unfolding Num last_tick_Num by simp
      then have "int k < \<lceil>2 * r\<rceil>" by linarith
      then have "of_int (int k) < 2 * r" by (simp only: less_ceiling_iff)
      then have "of_nat k / 2 < r" by (simp add: field_simps)
      also have "r \<le> 2 ^ 52" using assms(1) Num by simp
      finally show ?thesis .
    qed
  next
    case NegInfinity
    then have "k = 0" using assms(2) by simp
    then show ?thesis by simp
  qed (use assms in simp_all)
  then show ?thesis by (simp add: add_half_def field_simps)
qed

text \<open>The comparison succeeds on the last tick and on no tick before it.\<close>

lemma reaches_on_last_tick:
  assumes "halts S" and "k < last_tick S"
  shows "js_ge (of_nat (Suc k) / 2) S \<longleftrightarrow> Suc k = last_tick S"
proof (cases S)
  case (Num r)
  have "r \<le> of_nat (Suc k) / 2 \<longleftrightarrow> 2 * r \<le> of_int (int (Suc k))"
    by (simp add: field_simps)
  also have "\<dots> \<longleftrightarrow> \<lceil>2 * r\<rceil> \<le> int (Suc k)" by (simp only: ceiling_le_iff)
  also have "\<dots> \<longleftrightarrow> max 1 (nat \<lceil>2 * r\<rceil>) \<le> Suc k" by linarith
  also have "\<dots> \<longleftrightarrow> Suc k = max 1 (nat \<lceil>2 * r\<rceil>)"
    using assms(2) unfolding Num last_tick_Num by linarith
  finally show ?thesis unfolding Num last_tick_Num by simp
next
  case NegInfinity
  then show ?thesis using assms(2) by simp
qed (use assms in simp_all)

lemma below_target:
  assumes "k < nat \<lceil>2 * r\<rceil>"
  shows "of_nat k / 2 < (r::rat)"
proof -
  have "int k < \<lceil>2 * r\<rceil>" using assms by linarith
  then have "of_int (int k) < 2 * r" by (simp only: less_ceiling_iff)
  then show ?thesis by (simp add: field_simps)
qed

lemma target_reached: "(r::rat) \<le> of_nat (nat \<lceil>2 * r\<rceil>) / 2"
proof -
  have a: "2 * r \<le> of_int \<lceil>2 * r\<rceil>" by (rule le_of_int_ceiling)
  have "\<lceil>2 * r\<rceil> \<le> int (nat \<lceil>2 * r\<rceil>)" by linarith
  then have "(of_int \<lceil>2 * r\<rceil> :: rat) \<le> of_int (int (nat \<lceil>2 * r\<rceil>))"
    by (simp only: of_int_le_iff)
  then have "(of_int \<lceil>2 * r\<rceil> :: rat) \<le> of_nat (nat \<lceil>2 * r\<rceil>)"
    by (simp only: of_int_of_nat_eq)
  with a have "2 * r \<le> of_nat (nat \<lceil>2 * r\<rceil>)" by (rule order_trans)
  then show ?thesis by (simp only: pos_le_divide_eq zero_less_numeral mult.commute)
qed

section \<open>Ticks along a sequence of events\<close>

lemma scorings_timers_update [simp]:
  "scorings (s\<lparr>timers := ts\<rparr>) = filter is_scoring (map snd ts)"
  by (simp add: scorings_def)

lemma typings_timers_update [simp]:
  "typings (s\<lparr>timers := ts\<rparr>) = filter is_typing (map snd ts)"
  by (simp add: typings_def)

lemma typeWriter_keeps_score:
  "scorings (typeWriter str i s) = scorings s"
  "scoreText (typeWriter str i s) = scoreText s"
  by (auto simp: typeWriter_def setTimeout_def Let_def scorings_def filter_insert_timer_other)

lemma score_tick_keeps_text:
  "typings (score_tick target count s) = typings s"
  "explanationHTML (score_tick target count s) = explanationHTML s"
  by (auto simp: score_tick_def setInterval_def setTimeout_def Let_def typings_def
      filter_insert_timer_other)

lemma animateScore_keeps_text:
  "typings (animateScore target s) = typings s"
  "explanationHTML (animateScore target s) = explanationHTML s"
  "scoreText (animateScore target s) = scoreText s"
  by (auto simp: animateScore_def setInterval_def setTimeout_def Let_def typings_def
      filter_insert_timer_other)

lemma other_events_display:
  assumes "e \<noteq> TimerFire" and "e \<noteq> AnalyzeClick"
  shows "scoreText (step e s) = scoreText s" and "explanationHTML (step e s) = explanationHTML s"
  using assms
  by (cases e; simp add: audioInput_onchange_def handleAudioUpload_def reader_onloadend_def
      playBtn_onclick_def Let_def split: option.splits)+

lemma other_events_pending:
  assumes "e \<noteq> TimerFire" and "e \<noteq> AnalyzeClick"
  shows "scorings (step e s) = scorings s" and "typings (step e s) = typings s"
  using assms by (simp_all add: scorings_def typings_def other_events_frame)

lemma runs_next_TimerFire:
  "runs_next P TimerFire s \<longleftrightarrow> (\<exists>due t rest. timers s = (due, t) # rest \<and> due \<le> now s \<and> P t)"
  by (auto simp: runs_next_def split: list.splits)

lemma runs_next_other: "e \<noteq> TimerFire \<Longrightarrow> \<not> runs_next P e s"
  by (simp add: runs_next_def)

lemma ticks_append: "ticks P (xs @ ys) s = ticks P xs s + ticks P ys (run xs s)"
  by (induction xs arbitrary: s) simp_all

text \<open>The timer on a page on which no completion is pending, by cases.\<close>

lemma timer_cases [consumes 1, case_names idle scoring typing]:
  assumes "analyses s = []"
  obtains "step TimerFire s = s" and "\<not> runs_next is_scoring TimerFire s"
      and "\<not> runs_next is_typing TimerFire s"
    | due target count rest where "timers s = (due, ScoreTick target count) # rest" and "due \<le> now s"
    | due str i rest where "timers s = (due, TypeWriterCall str i) # rest" and "due \<le> now s"
proof (cases "timers s")
  case Nil
  then show ?thesis using that(1) by (simp add: runs_next_def)
next
  case (Cons a rest)
  obtain due t where a: "a = (due, t)" by (cases a)
  show ?thesis
  proof (cases "due \<le> now s")
    case False
    then show ?thesis using Cons a that(1) by (simp add: runs_next_def)
  next
    case True
    show ?thesis
    proof (cases t)
      case (AnalysisDone k)
      then show ?thesis using assms Cons a by (simp add: analyses_def)
    next
      case (ScoreTick target count)
      then show ?thesis using Cons a True that(2) by simp
    next
      case (TypeWriterCall str i)
      then show ?thesis using Cons a True that(3) by simp
    qed
  qed
qed

section \<open>The count-up among other callbacks\<close>

lemma counted_step:
  assumes h: "halts S" and c: "counted S k s" and e: "e \<noteq> AnalyzeClick"
  shows "counted S (k + (if runs_next is_scoring e s then 1 else 0)) (step e s)"
proof (cases "e = TimerFire")
  case False
  then show ?thesis
    using c e
    by (simp add: counted_def runs_next_other other_events_analyses other_events_pending
        other_events_display)
next
  case True
  note e = True
  have an: "analyses s = []" using c by (simp add: counted_def)
  from an show ?thesis
  proof (cases rule: timer_cases)
    case idle
    then show ?thesis using c e by simp
  next
    case (typing due str i rest)
    have nr: "\<not> runs_next is_scoring e s"
      using typing e by (simp add: runs_next_def)
    have st: "step e s = typeWriter str i (s\<lparr>timers := rest\<rparr>)"
      using typing e by simp
    have "scorings (step e s) = scorings s" "scoreText (step e s) = scoreText s"
      "analyses (step e s) = analyses s"
      unfolding st using typing(1)
      by (simp_all add: typeWriter_keeps_score typeWriter_frame(1)) (simp_all add: scorings_def analyses_def)
    then show ?thesis using c nr by (simp add: counted_def)
  next
    case (scoring due target count rest)
    have r: "runs_next is_scoring e s"
      using scoring e by (simp add: runs_next_def)
    have sc: "scorings s = ScoreTick target count # filter is_scoring (map snd rest)"
      using scoring(1) by (simp add: scorings_def)
    have k: "k < last_tick S"
    proof (rule ccontr)
      assume "\<not> k < last_tick S"
      then have "k = last_tick S" using c by (simp add: counted_def)
      then have "scorings s = []" using c by (simp add: counted_def)
      with sc show False by simp
    qed
    then have "scorings s = [ScoreTick S (of_nat k / 2)]" using c by (simp add: counted_def)
    with sc have t: "target = S" and cnt: "count = of_nat k / 2"
      and none: "filter is_scoring (map snd rest) = []"
      by simp_all
    have ar: "filter is_analysis (map snd rest) = []"
      using an scoring(1) by (simp add: analyses_def)
    have st: "step e s = score_tick S (of_nat k / 2) (s\<lparr>timers := rest\<rparr>)"
      using scoring e t cnt by simp
    note ah = below_last_tick [OF h k]
    note rl = reaches_on_last_tick [OF h k]
    show ?thesis
    proof (cases "Suc k = last_tick S")
      case True
      then have ge: "js_ge (of_nat (Suc k) / 2) S" using rl by simp
      have "step e s = s\<lparr>timers := rest, scoreText := S\<rparr>"
        unfolding st using ge by (simp add: score_tick_def Let_def ah del: of_nat_Suc)
      then show ?thesis
        using r True none ar by (simp add: counted_def analyses_def scorings_def)
    next
      case False
      then have ge: "\<not> js_ge (of_nat (Suc k) / 2) S" using rl by simp
      have lt: "Suc k < last_tick S" using k False by simp
      have "step e s = s\<lparr>scoreText := Num (of_nat (Suc k) / 2),
          timers := insert_timer (now s + 10, ScoreTick S (of_nat (Suc k) / 2)) rest\<rparr>"
        unfolding st using ge
        by (simp add: score_tick_def setInterval_def setTimeout_def Let_def ah toFixed1_half
            del: of_nat_Suc)
      then show ?thesis
        using r lt none ar
        by (simp add: counted_def analyses_def scorings_def filter_insert_timer_first
            filter_insert_timer_other del: of_nat_Suc)
    qed
  qed
qed

lemma counted_run:
  assumes "halts S"
  shows "counted S k s \<Longrightarrow> AnalyzeClick \<notin> set evs \<Longrightarrow>
         counted S (k + ticks is_scoring evs s) (run evs s)"
proof (induction evs arbitrary: k s)
  case Nil
  then show ?case by simp
next
  case (Cons e evs)
  from Cons.prems have e: "e \<noteq> AnalyzeClick" and evs: "AnalyzeClick \<notin> set evs" by auto
  from Cons.IH [OF counted_step [OF assms Cons.prems(1) e] evs]
  show ?case by (simp add: add.assoc)
qed

text \<open>The tick that is not the last leaves the next one due 10 ms after the time it ran.\<close>

lemma counted_next_due:
  assumes "halts S" and "counted S k s" and "runs_next is_scoring e s" and "Suc k < last_tick S"
  shows "(now s + 10, ScoreTick S (of_nat (Suc k) / 2)) \<in> set (timers (step e s))"
proof -
  from assms(3) obtain due t rest where e: "e = TimerFire"
    and tm: "timers s = (due, t) # rest" and due: "due \<le> now s" and t: "is_scoring t"
    by (auto simp: runs_next_def split: list.splits)
  have k: "k < last_tick S" using assms(4) by simp
  then have "scorings s = [ScoreTick S (of_nat k / 2)]" using assms(2) by (simp add: counted_def)
  moreover have "scorings s = t # filter is_scoring (map snd rest)"
    using tm t by (simp add: scorings_def)
  ultimately have t: "t = ScoreTick S (of_nat k / 2)" by simp
  have "\<not> js_ge (of_nat (Suc k) / 2) S"
    using reaches_on_last_tick [OF assms(1) k] assms(4) by simp
  then have "step e s = s\<lparr>scoreText := Num (of_nat (Suc k) / 2),
          timers := insert_timer (now s + 10, ScoreTick S (of_nat (Suc k) / 2)) rest\<rparr>"
    using e tm due t
    by (simp add: score_tick_def setInterval_def setTimeout_def Let_def
        below_last_tick [OF assms(1) k] toFixed1_half del: of_nat_Suc)
  then show ?thesis by (simp add: set_insert_timer del: of_nat_Suc)
qed

section \<open>The typewriter among other callbacks\<close>

lemma typed_call:
  assumes "typings s = []" and "analyses s = []"
  shows "typed str 1 (typeWriter str 0 s)"
proof (cases "str = []")
  case True
  then show ?thesis
    using assms by (simp add: typed_def typeWriter_def typings_def analyses_def)
next
  case False
  then have l: "0 < length str" by simp
  have "typeWriter str 0 s = s\<lparr>explanationHTML := innerHTML_append [] (str ! 0),
      timers := insert_timer (now s + 20, TypeWriterCall str 1) (timers s)\<rparr>"
    using l by (simp add: typeWriter_def setTimeout_def Let_def)
  moreover have "shown (take 1 str) = innerHTML_append [] (str ! 0)"
    using shown_take_Suc [OF l] by simp
  ultimately show ?thesis
    using assms l
    by (simp add: typed_def typings_def analyses_def filter_insert_timer_first
        filter_insert_timer_other)
qed

lemma typed_step:
  assumes c: "typed str k s" and e: "e \<noteq> AnalyzeClick"
  shows "typed str (k + (if runs_next is_typing e s then 1 else 0)) (step e s)"
proof (cases "e = TimerFire")
  case False
  then show ?thesis
    using c e
    by (simp add: typed_def runs_next_other other_events_analyses other_events_pending
        other_events_display)
next
  case True
  note e = True
  have an: "analyses s = []" using c by (simp add: typed_def)
  from an show ?thesis
  proof (cases rule: timer_cases)
    case idle
    then show ?thesis using c e by simp
  next
    case (scoring due target count rest)
    have nr: "\<not> runs_next is_typing e s"
      using scoring e by (simp add: runs_next_def)
    have st: "step e s = score_tick target count (s\<lparr>timers := rest\<rparr>)"
      using scoring e by simp
    have "typings (step e s) = typings s" "explanationHTML (step e s) = explanationHTML s"
      "analyses (step e s) = analyses s"
      unfolding st using scoring(1)
      by (simp_all add: score_tick_keeps_text score_tick_frame(1)) (simp_all add: typings_def analyses_def)
    then show ?thesis using c nr by (simp add: typed_def)
  next
    case (typing due x i rest)
    have r: "runs_next is_typing e s"
      using typing e by (simp add: runs_next_def)
    have ty: "typings s = TypeWriterCall x i # filter is_typing (map snd rest)"
      using typing(1) by (simp add: typings_def)
    have k: "k \<le> length str" and pos: "0 < k"
    proof -
      show "0 < k" using c by (simp add: typed_def)
      show "k \<le> length str"
      proof (rule ccontr)
        assume "\<not> k \<le> length str"
        then have "k = length str + 1" using c by (simp add: typed_def)
        then have "typings s = []" using c by (simp add: typed_def)
        with ty show False by simp
      qed
    qed
    then have "typings s = [TypeWriterCall str k]" using c by (simp add: typed_def)
    with ty have x: "x = str" and i: "i = k" and none: "filter is_typing (map snd rest) = []"
      by simp_all
    have ar: "filter is_analysis (map snd rest) = []"
      using an typing(1) by (simp add: analyses_def)
    have h: "explanationHTML s = shown (take k str)" using c by (simp add: typed_def)
    have st: "step e s = typeWriter str k (s\<lparr>timers := rest\<rparr>)"
      using typing e x i by simp
    show ?thesis
    proof (cases "k < length str")
      case True
      have "step e s = s\<lparr>explanationHTML := shown (take (Suc k) str),
          timers := insert_timer (now s + 20, TypeWriterCall str (Suc k)) rest\<rparr>"
        unfolding st using True pos h
        by (simp add: typeWriter_def setTimeout_def Let_def shown_take_Suc)
      then show ?thesis
        using r True none ar
        by (simp add: typed_def analyses_def typings_def filter_insert_timer_first
            filter_insert_timer_other)
    next
      case False
      with k have kl: "k = length str" by simp
      have "step e s = s\<lparr>timers := rest\<rparr>"
        unfolding st using kl pos by (simp add: typeWriter_def Let_def)
      then show ?thesis
        using r kl none ar h by (simp add: typed_def analyses_def typings_def)
    qed
  qed
qed

lemma typed_run:
  "typed str k s \<Longrightarrow> AnalyzeClick \<notin> set evs \<Longrightarrow>
   typed str (k + ticks is_typing evs s) (run evs s)"
proof (induction evs arbitrary: k s)
  case Nil
  then show ?case by simp
next
  case (Cons e evs)
  from Cons.prems have e: "e \<noteq> AnalyzeClick" and evs: "AnalyzeClick \<notin> set evs" by auto
  from Cons.IH [OF typed_step [OF Cons.prems(1) e] evs]
  show ?case by (simp add: add.assoc)
qed

text \<open>The run that appends a code unit leaves the next one due 20 ms after the time it ran.\<close>

lemma typed_next_due:
  assumes "typed str k s" and "runs_next is_typing e s" and "k < length str"
  shows "(now s + 20, TypeWriterCall str (Suc k)) \<in> set (timers (step e s))"
proof -
  from assms(2) obtain due t rest where e: "e = TimerFire"
    and tm: "timers s = (due, t) # rest" and due: "due \<le> now s" and t: "is_typing t"
    by (auto simp: runs_next_def split: list.splits)
  have "typings s = [TypeWriterCall str k]" and pos: "0 < k"
    using assms(1,3) by (simp_all add: typed_def)
  moreover have "typings s = t # filter is_typing (map snd rest)"
    using tm t by (simp add: typings_def)
  ultimately have t: "t = TypeWriterCall str k" by simp
  have "timers (step e s) = insert_timer (now s + 20, TypeWriterCall str (Suc k)) rest"
    using e tm due t assms(3) pos by (simp add: typeWriter_def setTimeout_def Let_def)
  then show ?thesis by (simp add: set_insert_timer)
qed

section \<open>The page settles\<close>

lemma ticks_left_pos: "0 < ticks_left t"
  by (induction t rule: ticks_left.induct) simp_all

lemma sum_insert_timer:
  "sum_list (map f (insert_timer e xs)) = (f e :: nat) + sum_list (map f xs)"
  by (induction xs) auto

lemma work_setTimeout: "work (setTimeout t d s) = ticks_left t + work s"
  by (simp add: work_def setTimeout_def sum_insert_timer)

lemma work_timers_update [simp]:
  "work (s\<lparr>timers := ts\<rparr>) = sum_list (map (\<lambda>e. ticks_left (snd e)) ts)"
  by (simp add: work_def)

lemma ticks_left_score_last:
  assumes "target \<le> count + 1 / 2"
  shows "ticks_left (ScoreTick (Num target) count) = 1"
proof -
  define x where "x = 2 * (target - count)"
  define c where "c = \<lceil>x\<rceil>"
  have "x \<le> 1" using assms by (simp add: x_def field_simps)
  then have "c \<le> 1" by (simp add: c_def ceiling_le_iff)
  then have "max 1 (nat c) = 1" by simp
  then show ?thesis by (simp only: ticks_left.simps x_def c_def)
qed

lemma ticks_left_score_more:
  assumes "\<not> target \<le> count + 1 / 2"
  shows "Suc (ticks_left (ScoreTick (Num target) (count + 1 / 2)))
           = ticks_left (ScoreTick (Num target) count)"
proof -
  define x where "x = 2 * (target - count)"
  define c where "c = \<lceil>x\<rceil>"
  have "1 < x" using assms by (simp add: x_def field_simps)
  then have big: "1 < c" by (simp add: c_def less_ceiling_iff)
  have "2 * (target - (count + 1 / 2)) = x - 1" by (simp add: x_def field_simps)
  then have "\<lceil>2 * (target - (count + 1 / 2))\<rceil> = c - 1" by (simp only: ceiling_diff_one c_def)
  moreover have "Suc (max 1 (nat (c - 1))) = max 1 (nat c)"
    using big by simp
  ultimately show ?thesis by (simp only: ticks_left.simps x_def c_def)
qed

lemma ticks_left_first: "ticks_left (ScoreTick (Num r) 0) = last_tick (Num r)"
  by (simp add: last_tick_Num del: last_tick.simps(1))

lemma work_score_tick:
  assumes "halts target"
  shows "Suc (work (score_tick target count s)) = ticks_left (ScoreTick target count) + work s"
proof (cases target)
  case (Num r)
  have r: "r \<le> 2 ^ 52" using assms Num by simp
  have le: "add_half count \<le> count + 1 / 2" by (simp add: add_half_def)
  show ?thesis
  proof (cases "js_ge (add_half count) target")
    case True
    then have "r \<le> count + 1 / 2" using le Num by simp
    then have "ticks_left (ScoreTick target count) = 1"
      unfolding Num by (rule ticks_left_score_last)
    moreover have "work (score_tick target count s) = work s"
      using True by (simp add: score_tick_def Let_def work_def)
    ultimately show ?thesis by simp
  next
    case False
    then have gt: "add_half count < r" using Num by simp
    have small: "count < 2 ^ 52"
    proof (rule ccontr)
      assume "\<not> count < 2 ^ 52"
      then have "add_half count = count" and "2 ^ 52 \<le> count" by (simp_all add: add_half_def)
      with gt r show False by simp
    qed
    then have ah: "add_half count = count + 1 / 2" by (simp add: add_half_def)
    have n: "\<not> r \<le> count + 1 / 2" using gt ah by simp
    have "work (score_tick target count s)
        = ticks_left (ScoreTick target (count + 1 / 2)) + work s"
      using False
      by (simp add: score_tick_def setInterval_def Let_def work_setTimeout ah) (simp add: work_def)
    then show ?thesis using ticks_left_score_more [OF n] Num by simp
  qed
next
  case NegInfinity
  then show ?thesis by (simp add: score_tick_def Let_def work_def)
qed (use assms in simp_all)

lemma work_typeWriter:
  assumes "0 < i"
  shows "Suc (work (typeWriter str i s)) = ticks_left (TypeWriterCall str i) + work s"
proof (cases "i < length str")
  case True
  then have "work (typeWriter str i s) = ticks_left (TypeWriterCall str (i + 1)) + work s"
    using assms by (simp add: typeWriter_def Let_def work_setTimeout) (simp add: work_def)
  moreover have "Suc (ticks_left (TypeWriterCall str (i + 1))) = ticks_left (TypeWriterCall str i)"
    using True by simp
  ultimately show ?thesis by simp
next
  case False
  then have "work (typeWriter str i s) = work s"
    using assms by (simp add: typeWriter_def Let_def)
  moreover have "ticks_left (TypeWriterCall str i) = 1" using False by simp
  ultimately show ?thesis by simp
qed

lemma work_typeWriter_first:
  assumes "str \<noteq> []"
  shows "work (typeWriter str 0 s) = length str + work s"
proof -
  have "0 < length str" using assms by simp
  then have "work (typeWriter str 0 s) = ticks_left (TypeWriterCall str 1) + work s"
    by (simp add: typeWriter_def Let_def work_setTimeout) (simp add: work_def)
  moreover have "ticks_left (TypeWriterCall str 1) = length str"
    using assms by (cases str) simp_all
  ultimately show ?thesis by simp
qed

lemma work_present:
  "work (present r s) =
     ticks_left (ScoreTick (score r) 0) + length (''> [SYSTEM_REPORT]: '' @ details r) + work s"
proof -
  let ?a = "s\<lparr>resultsHidden := False,
        labelText := (if isAI r then ''AI-GENERATED VOICE'' else ''HUMAN VOICE DETECTED''),
        labelColor := (if isAI r then ''#fb7185'' else ''#34d399''),
        badgeText := lang r @ '' Detected''\<rparr>"
  let ?b = "animateScore (score r) ?a"
  let ?str = "lit (''> [SYSTEM_REPORT]: '' @ details r)"
  have d: "present r s = (typeWriter ?str 0 ?b)\<lparr>scrolledTo := Some Results\<rparr>"
    by (simp add: present_def Let_def)
  have ne: "?str \<noteq> []" by simp
  have "work (present r s) = work (typeWriter ?str 0 ?b)"
    unfolding d by (simp add: work_def)
  also have "\<dots> = length ?str + work ?b" by (rule work_typeWriter_first [OF ne])
  also have "work ?b = ticks_left (ScoreTick (score r) 0) + work ?a"
    by (simp only: animateScore_def setInterval_def Let_def work_setTimeout)
  also have "work ?a = work s" by (simp add: work_def)
  finally show ?thesis by (simp del: ticks_left.simps)
qed

lemma mock_score: "score mockResponse = Num (978 / 10)" and mock_halts: "halts (score mockResponse)"
  by (simp_all add: mockResponse_def)

lemma work_run_task:
  assumes "stops t"
  shows "Suc (work (run_task t s)) = ticks_left t + work s"
proof (cases t)
  case (AnalysisDone k)
  have "work (analysis_done k s) = work (present mockResponse (s\<lparr>scanLines := removeAll k (scanLines s)\<rparr>))"
    by (simp add: analysis_done_def displayResults_def Let_def work_def)
  also have "\<dots> = last_tick (score mockResponse)
      + length (''> [SYSTEM_REPORT]: '' @ details mockResponse) + work s"
    unfolding work_present mock_score ticks_left_first by (simp add: work_def)
  finally show ?thesis
    unfolding AnalysisDone by (simp del: last_tick.simps)
next
  case (ScoreTick target count)
  then show ?thesis using work_score_tick assms by simp
next
  case (TypeWriterCall str i)
  show ?thesis
  proof (cases "i = 0")
    case False
    then show ?thesis using TypeWriterCall work_typeWriter by simp
  next
    case True
    show ?thesis
      unfolding TypeWriterCall True
      by (cases str) (simp_all add: typeWriter_def Let_def work_setTimeout, simp_all add: work_def)
  qed
qed

lemma list_all_insert_timer: "list_all P (insert_timer e xs) \<longleftrightarrow> P e \<and> list_all P xs"
  by (induction xs) auto

lemma stopping_timers_update [simp]:
  "stopping (s\<lparr>timers := ts\<rparr>) = list_all (\<lambda>e. stops (snd e)) ts"
  by (simp add: stopping_def)

lemma stopping_setTimeout: "stopping (setTimeout t d s) \<longleftrightarrow> stops t \<and> stopping s"
  by (simp add: stopping_def setTimeout_def list_all_insert_timer)

lemma stopping_typeWriter: "stopping (typeWriter str i s) = stopping s"
  by (simp add: typeWriter_def Let_def stopping_setTimeout) (simp add: stopping_def)

lemma stopping_animateScore: "stopping (animateScore S s) \<longleftrightarrow> halts S \<and> stopping s"
  by (simp add: animateScore_def setInterval_def Let_def stopping_setTimeout)

lemma stopping_score_tick: "halts S \<Longrightarrow> stopping s \<Longrightarrow> stopping (score_tick S c s)"
  by (simp add: score_tick_def setInterval_def Let_def stopping_setTimeout) (simp add: stopping_def)

lemma stopping_present: "stopping (present r s) \<longleftrightarrow> halts (score r) \<and> stopping s"
proof -
  let ?a = "s\<lparr>resultsHidden := False,
        labelText := (if isAI r then ''AI-GENERATED VOICE'' else ''HUMAN VOICE DETECTED''),
        labelColor := (if isAI r then ''#fb7185'' else ''#34d399''),
        badgeText := lang r @ '' Detected''\<rparr>"
  have d: "present r s = (typeWriter (lit (''> [SYSTEM_REPORT]: '' @ details r)) 0
      (animateScore (score r) ?a))\<lparr>scrolledTo := Some Results\<rparr>"
    by (simp add: present_def Let_def)
  have "stopping (present r s) = stopping (typeWriter (lit (''> [SYSTEM_REPORT]: '' @ details r)) 0
      (animateScore (score r) ?a))"
    unfolding d by (simp add: stopping_def)
  also have "\<dots> \<longleftrightarrow> halts (score r) \<and> stopping ?a"
    by (simp only: stopping_typeWriter stopping_animateScore)
  also have "stopping ?a = stopping s" by (simp add: stopping_def)
  finally show ?thesis .
qed

lemma stopping_run_task:
  assumes "stops t" and "stopping s"
  shows "stopping (run_task t s)"
proof (cases t)
  case (AnalysisDone k)
  have "stopping (analysis_done k s)
      = stopping (present mockResponse (s\<lparr>scanLines := removeAll k (scanLines s)\<rparr>))"
    by (simp add: analysis_done_def displayResults_def Let_def stopping_def)
  also have "\<dots>" using assms(2) by (simp add: stopping_present mock_halts) (simp add: stopping_def)
  finally show ?thesis using AnalysisDone by simp
next
  case (ScoreTick target count)
  then show ?thesis using assms stopping_score_tick by simp
next
  case (TypeWriterCall str i)
  then show ?thesis using assms(2) by (simp add: stopping_typeWriter)
qed

lemma stopping_fire_next:
  assumes "stopping s"
  shows "stopping (fire_next s)"
proof (cases "timers s")
  case Nil
  then show ?thesis using assms by (simp add: fire_next_Nil)
next
  case (Cons a rest)
  obtain due t where a: "a = (due, t)" by (cases a)
  have t: "stops t" and r: "stopping (s\<lparr>now := max (now s) due, timers := rest\<rparr>)"
    using assms Cons a by (simp_all add: stopping_def)
  show ?thesis
    unfolding fire_next_Cons [OF Cons [unfolded a]] by (rule stopping_run_task [OF t r])
qed

lemma work_fire_next:
  assumes "stopping s" and "timers s \<noteq> []"
  shows "Suc (work (fire_next s)) = work s"
proof -
  obtain due t rest where t: "timers s = (due, t) # rest"
    using assms(2) by (cases "timers s") auto
  have st: "stops t" using assms(1) t by (simp add: stopping_def)
  have "Suc (work (fire_next s)) = ticks_left t + work (s\<lparr>now := max (now s) due, timers := rest\<rparr>)"
    unfolding fire_next_Cons [OF t] by (rule work_run_task [OF st])
  also have "\<dots> = work s" using t by (simp add: work_def)
  finally show ?thesis .
qed

lemma work_zero: "work s = 0 \<Longrightarrow> timers s = []"
proof (rule ccontr)
  assume w: "work s = 0" and "timers s \<noteq> []"
  then obtain e rest where "timers s = e # rest" by (cases "timers s") auto
  then have "0 < work s" using ticks_left_pos [of "snd e"] by (simp add: work_def)
  with w show False by simp
qed

lemma drain_settles: "stopping s \<Longrightarrow> work s \<le> n \<Longrightarrow> timers (drain n s) = []"
proof (induction n arbitrary: s)
  case 0
  then show ?case by (simp add: work_zero)
next
  case (Suc n)
  show ?case
  proof (cases "timers s")
    case Nil
    then show ?thesis by (simp add: fire_next_Nil drain_Nil)
  next
    case (Cons a rest)
    then have "Suc (work (fire_next s)) = work s" using Suc.prems(1) by (simp add: work_fire_next)
    with Suc.prems have "work (fire_next s) \<le> n" by simp
    then show ?thesis using Suc.IH [OF stopping_fire_next [OF Suc.prems(1)]] by simp
  qed
qed

text \<open>The page left alone is one of the sequences of events, with no click in it.\<close>

lemma fire_next_as_run: "\<exists>evs. AnalyzeClick \<notin> set evs \<and> fire_next s = run evs s"
proof (cases "timers s")
  case Nil
  then have "fire_next s = run [] s" by (simp add: fire_next_Nil)
  then show ?thesis by (intro exI [of _ "[]"]) simp
next
  case (Cons a rest)
  obtain due t where a: "a = (due, t)" by (cases a)
  have "fire_next s = run [Elapse (due - now s), TimerFire] s"
    using Cons a by (simp add: fire_next_def)
  then show ?thesis by (intro exI [of _ "[Elapse (due - now s), TimerFire]"]) simp
qed

lemma drain_as_run: "\<exists>evs. AnalyzeClick \<notin> set evs \<and> drain n s = run evs s"
proof (induction n arbitrary: s)
  case 0
  show ?case by (intro exI [of _ "[]"]) simp
next
  case (Suc n)
  obtain xs where xs: "AnalyzeClick \<notin> set xs" "fire_next s = run xs s"
    using fire_next_as_run by blast
  obtain ys where ys: "AnalyzeClick \<notin> set ys" "drain n (fire_next s) = run ys (fire_next s)"
    using Suc.IH by blast
  show ?case
    by (intro exI [of _ "xs @ ys"]) (use xs ys in \<open>simp add: run_append\<close>)
qed

lemma stopping_one_count_up:
  assumes "scorings s = [ScoreTick S c]" and "halts S"
  shows "stopping s"
proof -
  have "stops t" if "t \<in> set (map snd (timers s))" for t
  proof (cases "is_scoring t")
    case True
    with that have "t \<in> set (scorings s)" by (simp add: scorings_def)
    then show ?thesis using assms by simp
  next
    case False
    then show ?thesis by (cases t) simp_all
  qed
  then show ?thesis by (auto simp: stopping_def list_all_iff)
qed

section \<open>What the animations leave alone\<close>

lemma outside_animation_run_task:
  "\<not> is_analysis t \<Longrightarrow> outside_animation (run_task t s) = outside_animation s"
  by (cases t)
    (simp_all add: outside_animation_def score_tick_def setInterval_def typeWriter_def
      setTimeout_def Let_def)

lemma quiet_fire_next:
  assumes "analyses s = []"
  shows "analyses (fire_next s) = []" and "outside_animation (fire_next s) = outside_animation s"
proof -
  have "analyses (fire_next s) = [] \<and> outside_animation (fire_next s) = outside_animation s"
  proof (cases "timers s")
    case Nil
    then show ?thesis using assms by (simp add: fire_next_Nil)
  next
    case (Cons a rest)
    obtain due t where a: "a = (due, t)" by (cases a)
    have t: "\<not> is_analysis t" and r: "filter is_analysis (map snd rest) = []"
      using assms Cons a by (auto simp: analyses_def split: if_splits)
    have "analyses (s\<lparr>now := max (now s) due, timers := rest\<rparr>) = []"
      using r by (simp add: analyses_def)
    then have "analyses (run_task t (s\<lparr>now := max (now s) due, timers := rest\<rparr>)) = []"
      by (simp only: run_task_frame(3) [OF t])
    moreover have "outside_animation (s\<lparr>now := max (now s) due, timers := rest\<rparr>) = outside_animation s"
      by (simp add: outside_animation_def)
    ultimately show ?thesis
      unfolding fire_next_Cons [OF Cons [unfolded a]] outside_animation_run_task [OF t] by simp
  qed
  then show "analyses (fire_next s) = []"
    and "outside_animation (fire_next s) = outside_animation s" by simp_all
qed

lemma quiet_drain:
  "analyses s = [] \<Longrightarrow> outside_animation (drain n s) = outside_animation s"
proof (induction n arbitrary: s)
  case 0
  show ?case by simp
next
  case (Suc n)
  from Suc.IH [OF quiet_fire_next(1) [OF Suc.prems]] quiet_fire_next(2) [OF Suc.prems]
  show ?case by simp
qed

lemma outside_animation_eq:
  assumes "outside_animation a = outside_animation b"
  shows "a = b\<lparr>scoreText := scoreText a, explanationHTML := explanationHTML a,
               timers := timers a, now := now a\<rparr>"
proof -
  have "a = (outside_animation a)\<lparr>scoreText := scoreText a, explanationHTML := explanationHTML a,
               timers := timers a, now := now a\<rparr>"
    by (simp add: outside_animation_def)
  also have "\<dots> = (outside_animation b)\<lparr>scoreText := scoreText a, explanationHTML := explanationHTML a,
               timers := timers a, now := now a\<rparr>"
    by (simp only: assms)
  also have "\<dots> = b\<lparr>scoreText := scoreText a, explanationHTML := explanationHTML a,
               timers := timers a, now := now a\<rparr>"
    by (simp add: outside_animation_def)
  finally show ?thesis .
qed

section \<open>The count-up\<close>

lemma counted_start:
  assumes "halts S" and "scorings s = [ScoreTick S 0]" and "analyses s = []"
  shows "counted S 0 s"
  using assms last_tick_pos [OF assms(1)] by (simp add: counted_def)

lemma last_tick_positive:
  assumes "0 < (S::rat)"
  shows "last_tick (Num S) = nat \<lceil>S / (1 / 2)\<rceil>" and "0 < nat \<lceil>S / (1 / 2)\<rceil>"
proof -
  define x where "x = S / (1 / 2)"
  define c where "c = nat \<lceil>x\<rceil>"
  have "0 < x" using assms by (simp add: x_def)
  then have "0 < \<lceil>x\<rceil>" by simp
  then have p: "0 < c" by (simp add: c_def)
  then show "0 < nat \<lceil>S / (1 / 2)\<rceil>" by (simp only: c_def x_def)
  from p have "max 1 c = c" by simp
  then show "last_tick (Num S) = nat \<lceil>S / (1 / 2)\<rceil>"
    by (simp only: last_tick.simps c_def x_def)
qed

lemma half_steps: "nat \<lceil>S / (1 / 2)\<rceil> = nat \<lceil>2 * (S::rat)\<rceil>"
proof -
  have "S / (1 / 2) = 2 * S" by simp
  then show ?thesis by (simp only:)
qed

lemma counted_display:
  assumes "0 < S" and "counted (Num S) k s" and "0 < k"
  shows "scoreText s = Num (if k < last_tick (Num S) then of_nat k / 2 else S)"
    and "(if k < last_tick (Num S) then of_nat k / 2 else S) \<le> S"
proof -
  show "scoreText s = Num (if k < last_tick (Num S) then of_nat k / 2 else S)"
    using assms(2,3) by (auto simp: counted_def)
  have "of_nat k / 2 < S" if "k < last_tick (Num S)"
  proof (rule below_target)
    show "k < nat \<lceil>2 * S\<rceil>"
      using that by (simp only: last_tick_positive(1) [OF assms(1)] half_steps)
  qed
  then show "(if k < last_tick (Num S) then of_nat k / 2 else S) \<le> S"
    by (cases "k < last_tick (Num S)") (simp_all add: less_imp_le del: last_tick.simps)
qed

lemma counted_settled:
  assumes "counted S k s" and "scorings s = []" and "halts S"
  shows "k = last_tick S" and "scoreText s = S"
proof -
  have "\<not> k < last_tick S" using assms(1,2) by (auto simp: counted_def)
  then show "k = last_tick S" using assms(1) by (simp add: counted_def)
  then show "scoreText s = S" using assms(1) by (simp add: counted_def)
qed

lemma scorings_empty_timers: "timers s = [] \<Longrightarrow> scorings s = []"
  by (simp add: scorings_def)

lemma count_up_completes:
  assumes "halts S" and "scorings s = [ScoreTick S 0]" and "analyses s = []" and "work s \<le> n"
  shows "timers (drain n s) = []" and "scoreText (drain n s) = S"
    and "\<exists>evs. AnalyzeClick \<notin> set evs \<and> drain n s = run evs s
          \<and> ticks is_scoring evs s = last_tick S"
proof -
  have st: "stopping s" using assms(1,2) by (simp add: stopping_one_count_up)
  show t: "timers (drain n s) = []" by (rule drain_settles [OF st assms(4)])
  obtain evs where evs: "AnalyzeClick \<notin> set evs" "drain n s = run evs s"
    using drain_as_run by blast
  have c: "counted S (0 + ticks is_scoring evs s) (drain n s)"
    unfolding evs(2) by (rule counted_run [OF assms(1) counted_start [OF assms(1-3)] evs(1)])
  note fin = counted_settled [OF c scorings_empty_timers [OF t] assms(1)]
  show "scoreText (drain n s) = S" by (rule fin(2))
  show "\<exists>evs. AnalyzeClick \<notin> set evs \<and> drain n s = run evs s
          \<and> ticks is_scoring evs s = last_tick S"
    using evs fin(1) by (intro exI [of _ evs]) simp
qed

lemma animateScore_registers:
  "scorings p = [] \<Longrightarrow> scorings (animateScore S p) = [ScoreTick S 0]"
  "analyses (animateScore S p) = analyses p"
  "(now p + 10, ScoreTick S 0) \<in> set (timers (animateScore S p))"
  by (simp_all add: animateScore_def setInterval_def setTimeout_def Let_def scorings_def
      analyses_def filter_insert_timer_first filter_insert_timer_other set_insert_timer)

lemma present_registers:
  assumes "scorings p = []"
  shows "scorings (present r p) = [ScoreTick (score r) 0]"
    and "analyses (present r p) = analyses p"
proof -
  let ?a = "p\<lparr>resultsHidden := False,
        labelText := (if isAI r then ''AI-GENERATED VOICE'' else ''HUMAN VOICE DETECTED''),
        labelColor := (if isAI r then ''#fb7185'' else ''#34d399''),
        badgeText := lang r @ '' Detected''\<rparr>"
  have d: "present r p = (typeWriter (lit (''> [SYSTEM_REPORT]: '' @ details r)) 0
      (animateScore (score r) ?a))\<lparr>scrolledTo := Some Results\<rparr>"
    by (simp add: present_def Let_def)
  have "scorings (present r p) = scorings (typeWriter (lit (''> [SYSTEM_REPORT]: '' @ details r)) 0
      (animateScore (score r) ?a))"
    unfolding d by (simp add: scorings_def)
  also have "\<dots> = scorings (animateScore (score r) ?a)"
    by (simp only: typeWriter_keeps_score)
  also have "\<dots> = [ScoreTick (score r) 0]"
    by (rule animateScore_registers(1)) (use assms in \<open>simp add: scorings_def\<close>)
  finally show "scorings (present r p) = [ScoreTick (score r) 0]" .
  have "analyses (present r p) = analyses (typeWriter (lit (''> [SYSTEM_REPORT]: '' @ details r)) 0
      (animateScore (score r) ?a))"
    unfolding d by (simp add: analyses_def)
  also have "\<dots> = analyses ?a"
    by (simp only: typeWriter_frame animateScore_registers)
  also have "analyses ?a = analyses p" by (simp add: analyses_def)
  finally show "analyses (present r p) = analyses p" .
qed

text \<open>A target that no accumulator reaches keeps its callback pending for ever.\<close>

lemma unreached_step:
  assumes ns: "\<And>c. \<not> js_ge c S" and sc: "\<exists>c. scorings s = [ScoreTick S c]"
    and an: "analyses s = []" and d: "\<exists>x. scoreText s = Num x" and e: "e \<noteq> AnalyzeClick"
  shows "(\<exists>c. scorings (step e s) = [ScoreTick S c]) \<and> analyses (step e s) = []
          \<and> (\<exists>x. scoreText (step e s) = Num x)"
proof (cases "e = TimerFire")
  case False
  then show ?thesis
    using sc an d e by (simp add: other_events_analyses other_events_pending other_events_display)
next
  case True
  note e = True
  from an show ?thesis
  proof (cases rule: timer_cases)
    case idle
    then show ?thesis using sc an d e by simp
  next
    case (typing due str i rest)
    have st: "step e s = typeWriter str i (s\<lparr>timers := rest\<rparr>)"
      using typing e by simp
    have "scorings (step e s) = scorings s" "scoreText (step e s) = scoreText s"
      "analyses (step e s) = analyses s"
      unfolding st using typing(1)
      by (simp_all add: typeWriter_keeps_score typeWriter_frame(1)) (simp_all add: scorings_def analyses_def)
    then show ?thesis using sc an d by simp
  next
    case (scoring due target count rest)
    obtain c where c: "scorings s = [ScoreTick S c]" using sc by blast
    have "scorings s = ScoreTick target count # filter is_scoring (map snd rest)"
      using scoring(1) by (simp add: scorings_def)
    with c have t: "target = S" and none: "filter is_scoring (map snd rest) = []" by simp_all
    have ar: "filter is_analysis (map snd rest) = []"
      using an scoring(1) by (simp add: analyses_def)
    have "step e s = s\<lparr>scoreText := Num (toFixed1 (add_half count)),
          timers := insert_timer (now s + 10, ScoreTick S (add_half count)) rest\<rparr>"
      using scoring e t ns [of "add_half count"]
      by (simp add: score_tick_def setInterval_def setTimeout_def Let_def)
    then show ?thesis
      using none ar
      by (simp add: analyses_def scorings_def filter_insert_timer_first filter_insert_timer_other)
  qed
qed

lemma unreached_run:
  assumes ns: "\<And>c. \<not> js_ge c S"
  shows "\<exists>c. scorings s = [ScoreTick S c] \<Longrightarrow> analyses s = [] \<Longrightarrow> \<exists>x. scoreText s = Num x \<Longrightarrow>
         AnalyzeClick \<notin> set evs \<Longrightarrow>
         (\<exists>c. scorings (run evs s) = [ScoreTick S c]) \<and> (\<exists>x. scoreText (run evs s) = Num x)"
proof (induction evs arbitrary: s)
  case Nil
  then show ?case by simp
next
  case (Cons e evs)
  from Cons.prems have e: "e \<noteq> AnalyzeClick" and evs: "AnalyzeClick \<notin> set evs" by auto
  note u = unreached_step [OF ns Cons.prems(1-3) e]
  from Cons.IH [OF u [THEN conjunct1] u [THEN conjunct2, THEN conjunct1]
      u [THEN conjunct2, THEN conjunct2] evs]
  show ?case by simp
qed

lemma unreached_drain:
  assumes ns: "\<And>c. \<not> js_ge c S" and "scorings s = [ScoreTick S c0]" and "analyses s = []"
    and "scoreText s = Num x0"
  shows "scorings (drain n s) \<noteq> []" and "scoreText (drain n s) \<noteq> PosInfinity"
    and "scoreText (drain n s) \<noteq> NaN"
proof -
  obtain evs where evs: "AnalyzeClick \<notin> set evs" "drain n s = run evs s"
    using drain_as_run by blast
  have "(\<exists>c. scorings (run evs s) = [ScoreTick S c]) \<and> (\<exists>x. scoreText (run evs s) = Num x)"
    by (rule unreached_run [OF ns _ assms(3) _ evs(1)]) (use assms in simp_all)
  then show "scorings (drain n s) \<noteq> []" and "scoreText (drain n s) \<noteq> PosInfinity"
    and "scoreText (drain n s) \<noteq> NaN"
    unfolding evs(2) by auto
qed

lemma mock_ticks: "last_tick (score mockResponse) = 196"
  unfolding mock_score last_tick_Num ceil_mock by simp

lemma mock_steps: "nat \<lceil>(978 / 10 :: rat) / (1 / 2)\<rceil> = 196"
  unfolding half_steps ceil_mock by simp

lemma work_displayResults_init: "work (displayResults init) = 372"
proof -
  have "work init = 0" by (simp add: work_def init_def)
  then show ?thesis
    unfolding displayResults_def work_present mock_score ticks_left_first
      mock_ticks [unfolded mock_score]
    by (simp add: mockResponse_def)
qed

text \<open>
  Claim C3, as amended. Let \<open>S\<close> be a finite target with \<open>0 < S \<le> 2\<^sup>5\<^sup>2\<close>, and let \<open>s0\<close> be a page on
  which the callback registered by \<open>animateScore\<close> for \<open>S\<close> is the only count-up callback pending
  and no analysis completion is pending; whatever else is pending (the typewriter that
  \<open>displayResults\<close> starts right after, file readers) is left open. Let the page go through any
  events \<open>evs\<close> other than a click on the trigger, in any order; \<open>j\<close> counts the ticks (runs of
  the count-up callback) among them, and \<open>N = \<lceil>S / 0.5\<rceil>\<close>. Then \<open>j \<le> N\<close>. After tick \<open>j < N\<close> the
  accumulator is \<open>j / 2\<close>, below \<open>S\<close>, the display shows it, and the callback is still pending;
  the tick leaves it due 10 ms after the time it ran. Tick \<open>N\<close> is the first whose accumulator
  reaches \<open>S\<close>; it leaves the display at exactly \<open>S\<close> and no count-up callback. The displayed value
  is never above \<open>S\<close> after a tick and never decreases over further events \<open>evs'\<close>. Left alone,
  the page reaches the display \<open>S\<close> with no count-up pending. The pages that \<open>animateScore\<close> and
  the body of \<open>displayResults\<close> leave, when called with no count-up and no completion
  pending, are such pages \<open>s0\<close>, and the first tick is then due 10 ms after the call.
\<close>

theorem animateScore_counts_up:
  assumes "0 < S" and "S \<le> 2 ^ 52"
    and "scorings s0 = [ScoreTick (Num S) 0]" and "analyses s0 = []"
    and "AnalyzeClick \<notin> set evs" and "AnalyzeClick \<notin> set evs'"
    and "j = ticks is_scoring evs s0" and "s = run evs s0" and "N = nat \<lceil>S / (1 / 2)\<rceil>"
  shows "j \<le> N
    \<and> (j < N \<longrightarrow> scorings s = [ScoreTick (Num S) (of_nat j / 2)] \<and> of_nat j / 2 < S)
    \<and> (0 < j \<and> j < N \<longrightarrow> scoreText s = Num (of_nat j / 2))
    \<and> (j = N \<longrightarrow> S \<le> of_nat j / 2 \<and> scoreText s = Num S \<and> scorings s = [])
    \<and> (0 < j \<longrightarrow> (\<exists>d d'. scoreText s = Num d \<and> scoreText (run evs' s) = Num d'
                        \<and> d \<le> d' \<and> d' \<le> S))
    \<and> (\<forall>e. runs_next is_scoring e s \<and> Suc j < N \<longrightarrow>
          (now s + 10, ScoreTick (Num S) (of_nat (Suc j) / 2)) \<in> set (timers (step e s)))
    \<and> (\<forall>n \<ge> work s0. scoreText (drain n s0) = Num S \<and> scorings (drain n s0) = [])
    \<and> (\<forall>p. scorings p = [] \<and> analyses p = [] \<longrightarrow>
          scorings (animateScore (Num S) p) = [ScoreTick (Num S) 0]
          \<and> analyses (animateScore (Num S) p) = []
          \<and> (now p + 10, ScoreTick (Num S) 0) \<in> set (timers (animateScore (Num S) p)))
    \<and> (\<forall>p r. scorings p = [] \<and> analyses p = [] \<and> score r = Num S \<longrightarrow>
          scorings (present r p) = [ScoreTick (Num S) 0] \<and> analyses (present r p) = [])"
proof -
  have h: "halts (Num S)" using assms(2) by simp
  note lt = last_tick_positive [OF assms(1)]
  have N: "last_tick (Num S) = N" and Npos: "0 < N" using lt assms(9) by simp_all
  have N2: "N = nat \<lceil>2 * S\<rceil>" using assms(9) by (simp only: half_steps)
  have c: "counted (Num S) j s"
    using counted_run [OF h counted_start [OF h assms(3,4)] assms(5)] assms(7,8) by simp
  have c': "counted (Num S) (j + ticks is_scoring evs' s) (run evs' s)"
    by (rule counted_run [OF h c assms(6)])
  have 1: "j \<le> N" using c N by (simp add: counted_def)
  have 2: "j < N \<longrightarrow> scorings s = [ScoreTick (Num S) (of_nat j / 2)] \<and> of_nat j / 2 < S"
    using c N below_target [of j S, folded N2] by (simp add: counted_def)
  have 3: "0 < j \<and> j < N \<longrightarrow> scoreText s = Num (of_nat j / 2)"
    using c N by (simp add: counted_def)
  have 4: "j = N \<longrightarrow> S \<le> of_nat j / 2 \<and> scoreText s = Num S \<and> scorings s = []"
    using c N target_reached [of S, folded N2] by (auto simp: counted_def)
  have 5: "0 < j \<longrightarrow> (\<exists>d d'. scoreText s = Num d \<and> scoreText (run evs' s) = Num d'
                        \<and> d \<le> d' \<and> d' \<le> S)"
  proof
    assume j: "0 < j"
    define k where "k = j + ticks is_scoring evs' s"
    have k: "0 < k" "j \<le> k" using j by (simp_all add: k_def)
    define d where "d = (if j < last_tick (Num S) then of_nat j / 2 else S)"
    define d' where "d' = (if k < last_tick (Num S) then of_nat k / 2 else S)"
    have a: "scoreText s = Num d" and da: "d \<le> S"
      using counted_display [OF assms(1) c j] by (simp_all add: d_def)
    have b: "scoreText (run evs' s) = Num d'" and db: "d' \<le> S"
      using counted_display [OF assms(1) c' [folded k_def] k(1)] by (simp_all add: d'_def)
    have "d \<le> d'"
    proof (cases "k < last_tick (Num S)")
      case True
      then have "j < last_tick (Num S)" using k(2) by simp
      then show ?thesis using True k(2) by (simp add: d_def d'_def)
    next
      case False
      then show ?thesis using da by (simp add: d'_def)
    qed
    then show "\<exists>d d'. scoreText s = Num d \<and> scoreText (run evs' s) = Num d' \<and> d \<le> d' \<and> d' \<le> S"
      using a b db by blast
  qed
  have 6: "\<forall>e. runs_next is_scoring e s \<and> Suc j < N \<longrightarrow>
          (now s + 10, ScoreTick (Num S) (of_nat (Suc j) / 2)) \<in> set (timers (step e s))"
    using counted_next_due [OF h c] N by blast
  have 7: "\<forall>n \<ge> work s0. scoreText (drain n s0) = Num S \<and> scorings (drain n s0) = []"
    using count_up_completes(1,2) [OF h assms(3,4)] by (simp add: scorings_empty_timers)
  have 8: "\<forall>p. scorings p = [] \<and> analyses p = [] \<longrightarrow>
          scorings (animateScore (Num S) p) = [ScoreTick (Num S) 0]
          \<and> analyses (animateScore (Num S) p) = []
          \<and> (now p + 10, ScoreTick (Num S) 0) \<in> set (timers (animateScore (Num S) p))"
    by (simp add: animateScore_registers)
  have 9: "\<forall>p r. scorings p = [] \<and> analyses p = [] \<and> score r = Num S \<longrightarrow>
          scorings (present r p) = [ScoreTick (Num S) 0] \<and> analyses (present r p) = []"
    by (simp add: present_registers)
  from 1 2 3 4 5 6 7 8 9 show ?thesis by (intro conjI)
qed

theorem animateScore_counts_up_witness:
  "0 < (978 / 10 :: rat) \<and> (978 / 10 :: rat) \<le> 2 ^ 52
 \<and> scorings (displayResults init) = [ScoreTick (Num (978 / 10)) 0]
 \<and> analyses (displayResults init) = []
 \<and> typings (displayResults init) \<noteq> []
 \<and> AnalyzeClick \<notin> set [Elapse 10, TimerFire, Elapse 10, TimerFire, TimerFire]
 \<and> AnalyzeClick \<notin> set [Elapse 10, TimerFire]
 \<and> ticks is_scoring [Elapse 10, TimerFire, Elapse 10, TimerFire, TimerFire] (displayResults init) = 2
 \<and> ticks is_typing [Elapse 10, TimerFire, Elapse 10, TimerFire, TimerFire] (displayResults init) = 1
 \<and> scoreText (run [Elapse 10, TimerFire, Elapse 10, TimerFire, TimerFire] (displayResults init)) = Num 1
 \<and> scorings (run [Elapse 10, TimerFire, Elapse 10, TimerFire, TimerFire] (displayResults init))
      = [ScoreTick (Num (978 / 10)) 1]
 \<and> scoreText (drain 372 (displayResults init)) = Num (978 / 10)
 \<and> scorings (drain 372 (displayResults init)) = []"
proof -
  let ?s0 = "displayResults init"
  let ?evs = "[Elapse 10, TimerFire, Elapse 10, TimerFire, TimerFire]"
  have p: "0 < (978 / 10 :: rat)" "(978 / 10 :: rat) \<le> 2 ^ 52" by simp_all
  have i: "scorings init = []" "analyses init = []"
    by (simp_all add: scorings_def analyses_def init_def)
  have s: "scorings ?s0 = [ScoreTick (Num (978 / 10)) 0]"
    using present_registers(1) [OF i(1), of mockResponse]
    by (simp add: displayResults_def mock_score)
  have a: "analyses ?s0 = []"
    using present_registers(2) [OF i(1), of mockResponse] i(2) by (simp add: displayResults_def)
  have ty: "typings ?s0 \<noteq> []"
    by (simp add: displayResults_def present_def Let_def typeWriter_def setTimeout_def
        animateScore_def setInterval_def init_def mockResponse_def typings_def)
  have e: "AnalyzeClick \<notin> set ?evs" "AnalyzeClick \<notin> set [Elapse 10, TimerFire]" by simp_all
  have j: "ticks is_scoring ?evs ?s0 = 2" and jt: "ticks is_typing ?evs ?s0 = 1"
    by (simp_all add: displayResults_def present_def Let_def typeWriter_def setTimeout_def
        animateScore_def setInterval_def init_def mockResponse_def runs_next_def
        score_tick_def add_half_def toFixed1_def)
  note th = animateScore_counts_up [OF p s a e j [symmetric] refl mock_steps [symmetric]]
  from th have b: "scorings (run ?evs ?s0) = [ScoreTick (Num (978 / 10)) 1]
      \<and> scoreText (run ?evs ?s0) = Num 1"
    by simp
  from th have c: "scoreText (drain 372 ?s0) = Num (978 / 10) \<and> scorings (drain 372 ?s0) = []"
    by (simp only: work_displayResults_init)
  show ?thesis using p s a ty e j jt b c by simp
qed

text \<open>
  Claim C3 as stated fails for the target \<open>+Infinity\<close>, which is above 0: no accumulator is ever
  at least \<open>+Infinity\<close>, so however long the page is left alone (on the fresh page, and after
  the body of \<open>displayResults\<close> for a result with that score) the callback is still pending
  and the display, which shows a finite accumulator, is not the target.
\<close>

theorem count_up_to_infinity_never_snaps:
  "(\<forall>n. scorings (drain n (animateScore PosInfinity init)) \<noteq> []
       \<and> scoreText (drain n (animateScore PosInfinity init)) \<noteq> PosInfinity)
 \<and> (\<forall>n. scorings (drain n (present
          \<lparr>lang = ''Telugu'', score = PosInfinity, isAI = True, details = ''ok''\<rparr> init)) \<noteq> []
       \<and> scoreText (drain n (present
          \<lparr>lang = ''Telugu'', score = PosInfinity, isAI = True, details = ''ok''\<rparr> init))
            \<noteq> PosInfinity)"
proof -
  have ns: "\<not> js_ge c PosInfinity" for c by simp
  have i: "scorings init = []" "analyses init = []" "scoreText init = Num 0"
    by (simp_all add: scorings_def analyses_def init_def)
  let ?a = "animateScore PosInfinity init"
  let ?r = "\<lparr>lang = ''Telugu'', score = PosInfinity, isAI = True, details = ''ok''\<rparr>"
  let ?b = "present ?r init"
  have a: "scorings ?a = [ScoreTick PosInfinity 0]" "analyses ?a = []" "scoreText ?a = Num 0"
    using i by (simp_all add: animateScore_registers animateScore_keeps_text)
  have b: "scorings ?b = [ScoreTick PosInfinity 0]" "analyses ?b = []"
    using present_registers [OF i(1), of ?r] i(2) by simp_all
  have b3: "scoreText ?b = Num 0"
    by (simp add: present_def Let_def typeWriter_keeps_score animateScore_keeps_text i(3))
  show ?thesis
    using unreached_drain(1,2) [OF ns a] unreached_drain(1,2) [OF ns b b3] by simp
qed

section \<open>The count-up ends\<close>

text \<open>
  Claim C10, as amended. Let the target \<open>S\<close> be finite and at most \<open>2\<^sup>5\<^sup>2\<close>, positive or not, or
  \<open>-Infinity\<close>, and let \<open>s0\<close> be a page on which the callback registered by \<open>animateScore\<close> for
  \<open>S\<close> is the only count-up callback pending and no analysis completion is pending, whatever
  else is pending. Over any events other than a click on the trigger the count-up callback
  runs at most \<open>last_tick S\<close> times, which is \<open>max 1 \<lceil>S / 0.5\<rceil>\<close> for a finite target and 1 for
  \<open>-Infinity\<close>, and it is pending no longer exactly when it has run that many times. Left alone,
  the page has no timer after finitely many callbacks, the count-up having run exactly that
  many times. The value \<open>speed\<close> plays no part: \<open>animateScore\<close> leaves the first tick due 10 ms
  after the call and every tick but the last leaves the next one due 10 ms after the time it
  ran, whatever the target and its quotient \<open>2000 / S\<close> are (for the target 0 the quotient is
  \<open>+Infinity\<close> and the count-up ends with its first tick).
\<close>

theorem animateScore_terminates:
  assumes "S = NegInfinity \<or> (\<exists>r. S = Num r \<and> r \<le> 2 ^ 52)"
    and "scorings s0 = [ScoreTick S 0]" and "analyses s0 = []"
    and "AnalyzeClick \<notin> set evs"
  shows "ticks is_scoring evs s0 \<le> last_tick S
    \<and> (scorings (run evs s0) = [] \<longleftrightarrow> ticks is_scoring evs s0 = last_tick S)
    \<and> (\<forall>r. S = Num r \<longrightarrow> last_tick S = max 1 (nat \<lceil>r / (1 / 2)\<rceil>))
    \<and> (S = NegInfinity \<longrightarrow> last_tick S = 1)
    \<and> (\<forall>e. runs_next is_scoring e (run evs s0) \<and> Suc (ticks is_scoring evs s0) < last_tick S \<longrightarrow>
          (\<exists>c. (now (run evs s0) + 10, ScoreTick S c) \<in> set (timers (step e (run evs s0)))))
    \<and> (\<forall>n \<ge> work s0. timers (drain n s0) = []
          \<and> (\<exists>xs. AnalyzeClick \<notin> set xs \<and> drain n s0 = run xs s0
                \<and> ticks is_scoring xs s0 = last_tick S))
    \<and> (\<forall>p. scorings p = [] \<and> analyses p = [] \<longrightarrow>
          scorings (animateScore S p) = [ScoreTick S 0] \<and> analyses (animateScore S p) = []
          \<and> (now p + 10, ScoreTick S 0) \<in> set (timers (animateScore S p)))
    \<and> js_div 2000 (Num 0) = PosInfinity \<and> last_tick (Num 0) = 1"
proof -
  have h: "halts S" using assms(1) by auto
  let ?j = "ticks is_scoring evs s0"
  have c: "counted S ?j (run evs s0)"
    using counted_run [OF h counted_start [OF h assms(2,3)] assms(4)] by simp
  have 1: "?j \<le> last_tick S" using c by (simp add: counted_def)
  have 2: "scorings (run evs s0) = [] \<longleftrightarrow> ?j = last_tick S"
  proof
    assume "scorings (run evs s0) = []"
    then show "?j = last_tick S" by (rule counted_settled(1) [OF c _ h])
  next
    assume "?j = last_tick S"
    then show "scorings (run evs s0) = []" using c by (simp add: counted_def)
  qed
  have 3: "\<forall>r. S = Num r \<longrightarrow> last_tick S = max 1 (nat \<lceil>r / (1 / 2)\<rceil>)"
  proof (intro allI impI)
    fix r
    assume "S = Num r"
    then show "last_tick S = max 1 (nat \<lceil>r / (1 / 2)\<rceil>)" by (simp only: last_tick.simps)
  qed
  have 4: "S = NegInfinity \<longrightarrow> last_tick S = 1" by simp
  have 5: "\<forall>e. runs_next is_scoring e (run evs s0) \<and> Suc ?j < last_tick S \<longrightarrow>
          (\<exists>c. (now (run evs s0) + 10, ScoreTick S c) \<in> set (timers (step e (run evs s0))))"
    using counted_next_due [OF h c] by blast
  have 6: "\<forall>n \<ge> work s0. timers (drain n s0) = []
          \<and> (\<exists>xs. AnalyzeClick \<notin> set xs \<and> drain n s0 = run xs s0
                \<and> ticks is_scoring xs s0 = last_tick S)"
    using count_up_completes(1,3) [OF h assms(2,3)] by blast
  have 7: "\<forall>p. scorings p = [] \<and> analyses p = [] \<longrightarrow>
          scorings (animateScore S p) = [ScoreTick S 0] \<and> analyses (animateScore S p) = []
          \<and> (now p + 10, ScoreTick S 0) \<in> set (timers (animateScore S p))"
    by (simp add: animateScore_registers)
  have 8: "js_div 2000 (Num 0) = PosInfinity" and 9: "last_tick (Num 0) = 1" by simp_all
  from 1 2 3 4 5 6 7 8 9 show ?thesis by (intro conjI)
qed

theorem animateScore_terminates_witness:
  "scorings (present \<lparr>lang = ''Telugu'', score = Num 0, isAI = False, details = ''ok''\<rparr> init)
      = [ScoreTick (Num 0) 0]
 \<and> analyses (present \<lparr>lang = ''Telugu'', score = Num 0, isAI = False, details = ''ok''\<rparr> init) = []
 \<and> typings (present \<lparr>lang = ''Telugu'', score = Num 0, isAI = False, details = ''ok''\<rparr> init) \<noteq> []
 \<and> AnalyzeClick \<notin> set [Elapse 20, TimerFire, TimerFire, PlayClick True]
 \<and> ticks is_scoring [Elapse 20, TimerFire, TimerFire, PlayClick True]
      (present \<lparr>lang = ''Telugu'', score = Num 0, isAI = False, details = ''ok''\<rparr> init) = 1
 \<and> last_tick (Num 0) = 1
 \<and> scorings (run [Elapse 20, TimerFire, TimerFire, PlayClick True]
      (present \<lparr>lang = ''Telugu'', score = Num 0, isAI = False, details = ''ok''\<rparr> init)) = []
 \<and> scorings (displayResults init) = [ScoreTick (Num (978 / 10)) 0]
 \<and> analyses (displayResults init) = []
 \<and> timers (drain 372 (displayResults init)) = []"
proof -
  let ?r = "\<lparr>lang = ''Telugu'', score = Num 0, isAI = False, details = ''ok''\<rparr>"
  let ?s0 = "present ?r init"
  let ?evs = "[Elapse 20, TimerFire, TimerFire, PlayClick True]"
  have i: "scorings init = []" "analyses init = []"
    by (simp_all add: scorings_def analyses_def init_def)
  have h: "Num 0 = NegInfinity \<or> (\<exists>r. Num 0 = Num r \<and> r \<le> 2 ^ 52)" by simp
  have s: "scorings ?s0 = [ScoreTick (Num 0) 0]"
    using present_registers(1) [OF i(1), of ?r] by simp
  have a: "analyses ?s0 = []"
    using present_registers(2) [OF i(1), of ?r] i(2) by simp
  have ty: "typings ?s0 \<noteq> []"
    by (simp add: present_def Let_def typeWriter_def setTimeout_def
        animateScore_def setInterval_def init_def typings_def)
  have e: "AnalyzeClick \<notin> set ?evs" by simp
  have j: "ticks is_scoring ?evs ?s0 = 1"
    by (simp add: present_def Let_def typeWriter_def setTimeout_def
        animateScore_def setInterval_def init_def runs_next_def
        score_tick_def add_half_def toFixed1_def playBtn_onclick_def)
  note th = animateScore_terminates [OF h s a e]
  from th j have b: "scorings (run ?evs ?s0) = []" by simp
  have h2: "Num (978 / 10) = NegInfinity \<or> (\<exists>r. Num (978 / 10) = Num r \<and> r \<le> 2 ^ 52)"
    by (intro disjI2 exI [of _ "978 / 10"]) simp
  have s2: "scorings (displayResults init) = [ScoreTick (Num (978 / 10)) 0]"
    using present_registers(1) [OF i(1), of mockResponse]
    by (simp add: displayResults_def mock_score)
  have a2: "analyses (displayResults init) = []"
    using present_registers(2) [OF i(1), of mockResponse] i(2) by (simp add: displayResults_def)
  note th2 = animateScore_terminates [OF h2 s2 a2 e]
  from th2 have c: "timers (drain 372 (displayResults init)) = []"
    by (simp only: work_displayResults_init)
  show ?thesis using s a ty e j b s2 a2 c by simp
qed

text \<open>
  Claim C10 as stated fails for the target \<open>NaN\<close>: no accumulator is at least \<open>NaN\<close>, so
  however many callbacks the page runs, the count-up callback is still pending.
\<close>

theorem count_up_to_NaN_never_stops:
  "\<forall>n. scorings (drain n (animateScore NaN init)) \<noteq> []"
proof -
  have ns: "\<not> js_ge c NaN" for c by simp
  have i: "scorings init = []" "analyses init = []" "scoreText init = Num 0"
    by (simp_all add: scorings_def analyses_def init_def)
  have a: "scorings (animateScore NaN init) = [ScoreTick NaN 0]"
    "analyses (animateScore NaN init) = []" "scoreText (animateScore NaN init) = Num 0"
    using i by (simp_all add: animateScore_registers animateScore_keeps_text)
  show ?thesis using unreached_drain(1) [OF ns a] by simp
qed

section \<open>The typewriter reveals the text\<close>

lemma typed_start:
  assumes "analyses s = []"
    and "typings s = (if str = [] then [] else [TypeWriterCall str 1])"
    and "explanationHTML s = shown (take 1 str)"
  shows "typed str 1 s"
  using assms by (cases str) (simp_all add: typed_def)

lemma typed_settled:
  assumes "typed str k s" and "typings s = []"
  shows "k = length str + 1" and "explanationHTML s = shown str"
proof -
  have "\<not> k \<le> length str" using assms by (auto simp: typed_def)
  then show k: "k = length str + 1" using assms(1) by (simp add: typed_def)
  show "explanationHTML s = shown str" using assms(1) unfolding k by (simp add: typed_def)
qed

lemma typings_empty_timers: "timers s = [] \<Longrightarrow> typings s = []"
  by (simp add: typings_def)

lemma typewriter_completes:
  assumes "typed str 1 s" and "stopping s" and "work s \<le> n"
  shows "timers (drain n s) = []" and "explanationHTML (drain n s) = shown str"
proof -
  show t: "timers (drain n s) = []" by (rule drain_settles [OF assms(2,3)])
  obtain evs where evs: "AnalyzeClick \<notin> set evs" "drain n s = run evs s"
    using drain_as_run by blast
  have c: "typed str (1 + ticks is_typing evs s) (drain n s)"
    unfolding evs(2) by (rule typed_run [OF assms(1) evs(1)])
  show "explanationHTML (drain n s) = shown str"
    by (rule typed_settled(2) [OF c typings_empty_timers [OF t]])
qed

lemma typed_appends:
  assumes "typed str k s" and "runs_next is_typing e s"
  shows "k < length str \<Longrightarrow>
           explanationHTML (step e s) = innerHTML_append (explanationHTML s) (str ! k)"
    and "k = length str \<Longrightarrow>
           explanationHTML (step e s) = explanationHTML s \<and> typings (step e s) = []"
proof -
  have e: "e \<noteq> AnalyzeClick" using assms(2) by (auto simp: runs_next_def)
  have n: "typed str (Suc k) (step e s)"
    using typed_step [OF assms(1) e] assms(2) by simp
  have h: "explanationHTML s = shown (take k str)" using assms(1) by (simp add: typed_def)
  show "explanationHTML (step e s) = innerHTML_append (explanationHTML s) (str ! k)"
    if "k < length str"
    using n that h by (simp add: typed_def shown_take_Suc)
  show "explanationHTML (step e s) = explanationHTML s \<and> typings (step e s) = []"
    if "k = length str"
    using n that h by (simp add: typed_def)
qed

lemma typeWriter_call:
  assumes "typings p = []" and "analyses p = []"
  shows "analyses (typeWriter str 0 p) = []"
    and "typings (typeWriter str 0 p) = (if str = [] then [] else [TypeWriterCall str 1])"
    and "explanationHTML (typeWriter str 0 p) = shown (take 1 str)"
    and "str \<noteq> [] \<Longrightarrow> (now p + 20, TypeWriterCall str 1) \<in> set (timers (typeWriter str 0 p))"
proof -
  note t = typed_call [OF assms, of str]
  show "analyses (typeWriter str 0 p) = []" using t by (simp add: typed_def)
  show "typings (typeWriter str 0 p) = (if str = [] then [] else [TypeWriterCall str 1])"
    using t by (cases str) (simp_all add: typed_def)
  show "explanationHTML (typeWriter str 0 p) = shown (take 1 str)" using t by (simp add: typed_def)
  show "(now p + 20, TypeWriterCall str 1) \<in> set (timers (typeWriter str 0 p))" if "str \<noteq> []"
    using that by (simp add: typeWriter_def setTimeout_def Let_def set_insert_timer)
qed

lemma present_types:
  assumes "typings p = []" and "analyses p = []"
  shows "analyses (present r p) = []"
    and "typings (present r p) = [TypeWriterCall (lit (''> [SYSTEM_REPORT]: '' @ details r)) 1]"
    and "explanationHTML (present r p) = shown (take 1 (lit (''> [SYSTEM_REPORT]: '' @ details r)))"
proof -
  let ?a = "p\<lparr>resultsHidden := False,
        labelText := (if isAI r then ''AI-GENERATED VOICE'' else ''HUMAN VOICE DETECTED''),
        labelColor := (if isAI r then ''#fb7185'' else ''#34d399''),
        badgeText := lang r @ '' Detected''\<rparr>"
  let ?b = "animateScore (score r) ?a"
  let ?str = "lit (''> [SYSTEM_REPORT]: '' @ details r)"
  have d: "present r p = (typeWriter ?str 0 ?b)\<lparr>scrolledTo := Some Results\<rparr>"
    by (simp add: present_def Let_def)
  have b: "typings ?b = []" "analyses ?b = []"
    using assms by (simp_all add: animateScore_keeps_text animateScore_registers(2))
      (simp_all add: typings_def analyses_def)
  note t = typeWriter_call(1-3) [OF b, of ?str]
  have ne: "?str \<noteq> []" by simp
  show "analyses (present r p) = []"
    using t(1) unfolding d by (simp add: analyses_def)
  show "typings (present r p) = [TypeWriterCall ?str 1]"
    using t(2) ne unfolding d by (simp add: typings_def)
  show "explanationHTML (present r p) = shown (take 1 ?str)"
    using t(3) unfolding d by simp
qed

lemma mock_text_plain:
  "0 \<notin> set (lit (''> [SYSTEM_REPORT]: '' @ details mockResponse))"
  "13 \<notin> set (lit (''> [SYSTEM_REPORT]: '' @ details mockResponse))"
  by (rule lit_plain; simp add: mockResponse_def)+

lemma stopping_displayResults_init: "stopping (displayResults init)"
proof -
  have "stopping init" by (simp add: stopping_def init_def)
  then show ?thesis by (simp add: displayResults_def stopping_present mock_halts)
qed

text \<open>
  Claim C4, as amended. Let \<open>str\<close> be any string of UTF-16 code units, of length \<open>L\<close>, and let
  \<open>s0\<close> be a page on which \<open>typeWriter\<close> has just been called for \<open>str\<close>: its call, which is
  tick 1, has emptied the element and appended the first code unit, its next run is the only
  typewriter callback pending, and no analysis completion is pending; whatever else is pending
  (the count-up that \<open>displayResults\<close> has started just before) is left open. Let the page go
  through any events \<open>evs\<close> other than a click on the trigger, in any order; \<open>k\<close> is 1 plus the
  number of runs of the typewriter callback among them. Then \<open>k \<le> L + 1\<close> and the element
  shows what appending the first \<open>k\<close> code units one by one leaves, which is these code units
  with every NUL dropped and every carriage return replaced by a line feed. For a string with
  neither, the element shows the prefix of length \<open>k\<close>: a strict prefix for \<open>k < L\<close>, the whole
  string from tick \<open>L\<close> on. Every tick up to \<open>L\<close> appends exactly the next code unit and leaves
  the next run due 20 ms after the time it ran; run \<open>L + 1\<close> appends nothing and leaves no
  typewriter callback. Left alone, a page whose count-ups end reaches the whole text with no
  timer pending. The pages that a call of \<open>typeWriter\<close> and the body of \<open>displayResults\<close>
  leave, when called with no typewriter callback and no completion pending, are such pages
  \<open>s0\<close>, whatever the element held before.
\<close>

theorem typeWriter_reveals:
  assumes "analyses s0 = []"
    and "typings s0 = (if str = [] then [] else [TypeWriterCall str 1])"
    and "explanationHTML s0 = shown (take 1 str)"
    and "AnalyzeClick \<notin> set evs"
    and "k = 1 + ticks is_typing evs s0" and "s = run evs s0"
  shows "k \<le> length str + 1
    \<and> explanationHTML s = shown (take k str)
    \<and> shown (take k str) = map (\<lambda>c. if c = 13 then 10 else c) (filter (\<lambda>c. c \<noteq> 0) (take k str))
    \<and> (0 \<notin> set str \<and> 13 \<notin> set str \<longrightarrow>
          explanationHTML s = take k str
        \<and> length (explanationHTML s) = min k (length str)
        \<and> (k < length str \<longrightarrow> explanationHTML s \<noteq> str)
        \<and> (length str \<le> k \<longrightarrow> explanationHTML s = str))
    \<and> (k \<le> length str \<longrightarrow> typings s = [TypeWriterCall str k])
    \<and> (k = length str + 1 \<longrightarrow> typings s = [])
    \<and> (\<forall>e. runs_next is_typing e s \<and> k < length str \<longrightarrow>
          explanationHTML (step e s) = innerHTML_append (explanationHTML s) (str ! k)
        \<and> (now s + 20, TypeWriterCall str (Suc k)) \<in> set (timers (step e s)))
    \<and> (\<forall>e. runs_next is_typing e s \<and> k = length str \<longrightarrow>
          explanationHTML (step e s) = explanationHTML s \<and> typings (step e s) = [])
    \<and> (stopping s0 \<longrightarrow>
          (\<forall>n \<ge> work s0. explanationHTML (drain n s0) = shown str \<and> timers (drain n s0) = []))
    \<and> (\<forall>p. typings p = [] \<and> analyses p = [] \<longrightarrow>
          analyses (typeWriter str 0 p) = []
        \<and> typings (typeWriter str 0 p) = (if str = [] then [] else [TypeWriterCall str 1])
        \<and> explanationHTML (typeWriter str 0 p) = shown (take 1 str)
        \<and> (str \<noteq> [] \<longrightarrow> (now p + 20, TypeWriterCall str 1) \<in> set (timers (typeWriter str 0 p))))
    \<and> (\<forall>p r. typings p = [] \<and> analyses p = [] \<and> str = lit (''> [SYSTEM_REPORT]: '' @ details r) \<longrightarrow>
          analyses (present r p) = []
        \<and> typings (present r p) = [TypeWriterCall str 1]
        \<and> explanationHTML (present r p) = shown (take 1 str))"
proof -
  note t0 = typed_start [OF assms(1-3)]
  have c: "typed str k s"
    using typed_run [OF t0 assms(4)] assms(5,6) by simp
  have 1: "k \<le> length str + 1" using c by (simp add: typed_def)
  have 2: "explanationHTML s = shown (take k str)" using c by (simp add: typed_def)
  have 3: "shown (take k str)
      = map (\<lambda>c. if c = 13 then 10 else c) (filter (\<lambda>c. c \<noteq> 0) (take k str))"
    by (rule shown_filter)
  have 4: "0 \<notin> set str \<and> 13 \<notin> set str \<longrightarrow>
          explanationHTML s = take k str
        \<and> length (explanationHTML s) = min k (length str)
        \<and> (k < length str \<longrightarrow> explanationHTML s \<noteq> str)
        \<and> (length str \<le> k \<longrightarrow> explanationHTML s = str)"
  proof
    assume p: "0 \<notin> set str \<and> 13 \<notin> set str"
    have "0 \<notin> set (take k str)" "13 \<notin> set (take k str)"
      using p by (auto dest: in_set_takeD)
    then have e: "explanationHTML s = take k str" using 2 by (simp add: shown_plain)
    have "take k str \<noteq> str" if "k < length str"
    proof
      assume "take k str = str"
      then have "length (take k str) = length str" by simp
      with that show False by simp
    qed
    then show "explanationHTML s = take k str
        \<and> length (explanationHTML s) = min k (length str)
        \<and> (k < length str \<longrightarrow> explanationHTML s \<noteq> str)
        \<and> (length str \<le> k \<longrightarrow> explanationHTML s = str)"
      using e by (simp add: min.commute)
  qed
  have 5: "k \<le> length str \<longrightarrow> typings s = [TypeWriterCall str k]"
    and 6: "k = length str + 1 \<longrightarrow> typings s = []"
    using c by (simp_all add: typed_def)
  have 7: "\<forall>e. runs_next is_typing e s \<and> k < length str \<longrightarrow>
          explanationHTML (step e s) = innerHTML_append (explanationHTML s) (str ! k)
        \<and> (now s + 20, TypeWriterCall str (Suc k)) \<in> set (timers (step e s))"
    using typed_appends(1) [OF c] typed_next_due [OF c] by blast
  have 8: "\<forall>e. runs_next is_typing e s \<and> k = length str \<longrightarrow>
          explanationHTML (step e s) = explanationHTML s \<and> typings (step e s) = []"
    using typed_appends(2) [OF c] by blast
  have 9: "stopping s0 \<longrightarrow>
          (\<forall>n \<ge> work s0. explanationHTML (drain n s0) = shown str \<and> timers (drain n s0) = [])"
    using typewriter_completes [OF t0] by blast
  have 10: "\<forall>p. typings p = [] \<and> analyses p = [] \<longrightarrow>
          analyses (typeWriter str 0 p) = []
        \<and> typings (typeWriter str 0 p) = (if str = [] then [] else [TypeWriterCall str 1])
        \<and> explanationHTML (typeWriter str 0 p) = shown (take 1 str)
        \<and> (str \<noteq> [] \<longrightarrow> (now p + 20, TypeWriterCall str 1) \<in> set (timers (typeWriter str 0 p)))"
    using typeWriter_call [of _ str] by blast
  have 11: "\<forall>p r. typings p = [] \<and> analyses p = [] \<and> str = lit (''> [SYSTEM_REPORT]: '' @ details r) \<longrightarrow>
          analyses (present r p) = []
        \<and> typings (present r p) = [TypeWriterCall str 1]
        \<and> explanationHTML (present r p) = shown (take 1 str)"
    using present_types by blast
  from 1 2 3 4 5 6 7 8 9 10 11 show ?thesis by (intro conjI)
qed

theorem typeWriter_reveals_witness:
  "analyses (displayResults init) = []
 \<and> typings (displayResults init)
      = [TypeWriterCall (lit (''> [SYSTEM_REPORT]: '' @ details mockResponse)) 1]
 \<and> scorings (displayResults init) \<noteq> []
 \<and> explanationHTML (displayResults init) = lit ''>''
 \<and> AnalyzeClick \<notin> set [Elapse 20, TimerFire, TimerFire, WaveReady]
 \<and> ticks is_typing [Elapse 20, TimerFire, TimerFire, WaveReady] (displayResults init) = 1
 \<and> ticks is_scoring [Elapse 20, TimerFire, TimerFire, WaveReady] (displayResults init) = 1
 \<and> explanationHTML (run [Elapse 20, TimerFire, TimerFire, WaveReady] (displayResults init))
      = lit ''> ''
 \<and> typings (run [Elapse 20, TimerFire, TimerFire, WaveReady] (displayResults init))
      = [TypeWriterCall (lit (''> [SYSTEM_REPORT]: '' @ details mockResponse)) 2]
 \<and> stopping (displayResults init)
 \<and> explanationHTML (drain 372 (displayResults init))
      = lit (''> [SYSTEM_REPORT]: '' @ details mockResponse)
 \<and> timers (drain 372 (displayResults init)) = []"
proof -
  let ?s0 = "displayResults init"
  let ?str = "lit (''> [SYSTEM_REPORT]: '' @ details mockResponse)"
  let ?evs = "[Elapse 20, TimerFire, TimerFire, WaveReady]"
  have i: "typings init = []" "analyses init = []" "scorings init = []"
    by (simp_all add: typings_def analyses_def scorings_def init_def)
  note pt = present_types [OF i(1,2), of mockResponse, folded displayResults_def]
  have ne: "?str \<noteq> []" by simp
  have a: "analyses ?s0 = []" by (rule pt(1))
  have t: "typings ?s0 = (if ?str = [] then [] else [TypeWriterCall ?str 1])"
    using pt(2) ne by simp
  have x: "explanationHTML ?s0 = shown (take 1 ?str)" by (rule pt(3))
  have sc: "scorings ?s0 \<noteq> []"
    using present_registers(1) [OF i(3), of mockResponse] by (simp add: displayResults_def)
  have e: "AnalyzeClick \<notin> set ?evs" by simp
  have j: "ticks is_typing ?evs ?s0 = 1" and js: "ticks is_scoring ?evs ?s0 = 1"
    by (simp_all add: displayResults_def present_def Let_def typeWriter_def setTimeout_def
        animateScore_def setInterval_def init_def mockResponse_def runs_next_def
        score_tick_def add_half_def toFixed1_def)
  have k: "(2::nat) = 1 + ticks is_typing ?evs ?s0" using j by simp
  have t1: "take 1 ?str = lit ''>''" and t2: "take 2 ?str = lit ''> ''"
    by (simp_all add: lit_def mockResponse_def)
  have p1: "0 \<notin> set (lit ''>'')" "13 \<notin> set (lit ''>'')"
    by (rule lit_plain; simp)+
  note th = typeWriter_reveals [OF a t x e k refl]
  have l: "(2::nat) \<le> length ?str" by (simp add: mockResponse_def)
  from th mock_text_plain have "explanationHTML (run ?evs ?s0) = take 2 ?str" by blast
  then have b: "explanationHTML (run ?evs ?s0) = lit ''> ''" by (simp only: t2)
  from th l have c: "typings (run ?evs ?s0) = [TypeWriterCall ?str 2]" by blast
  from th stopping_displayResults_init
  have "\<forall>n \<ge> work ?s0. explanationHTML (drain n ?s0) = shown ?str \<and> timers (drain n ?s0) = []"
    by blast
  then have d: "explanationHTML (drain 372 ?s0) = ?str \<and> timers (drain 372 ?s0) = []"
    by (simp only: work_displayResults_init shown_plain [OF mock_text_plain])
  have x1: "explanationHTML ?s0 = lit ''>''"
    unfolding x t1 by (rule shown_plain [OF p1])
  show ?thesis
    using a pt(2) sc x1 e j js b c stopping_displayResults_init d by simp
qed

text \<open>
  Claim C4 as stated fails for a string with a carriage return or a NUL. For the string of
  the one code unit 13 (length 1), the element shows the line feed 10 after tick 1 and ever
  after, not the string. For the string \<open>a\<close>, NUL (length 2), the element shows \<open>a\<close> alone
  after tick 2, not the prefix of length 2.
\<close>

theorem typewriter_rewrites_carriage_return:
  "explanationHTML (typeWriter [13] 0 init) = [10]
 \<and> explanationHTML (typeWriter [13] 0 init) \<noteq> [13]
 \<and> explanationHTML (drain 1 (typeWriter [13] 0 init)) = [10]
 \<and> timers (drain 1 (typeWriter [13] 0 init)) = []
 \<and> explanationHTML (drain 1 (typeWriter [97, 0] 0 init)) = [97]
 \<and> length (explanationHTML (drain 1 (typeWriter [97, 0] 0 init))) \<noteq> 2
 \<and> timers (drain 2 (typeWriter [97, 0] 0 init)) = []
 \<and> explanationHTML (drain 2 (typeWriter [97, 0] 0 init)) \<noteq> [97, 0]"
proof -
  have d: "drain 1 s = fire_next s" "drain 2 s = fire_next (fire_next s)" for s
    by (simp_all add: numeral_2_eq_2)
  show ?thesis
    unfolding d
    by (simp add: typeWriter_def setTimeout_def Let_def init_def innerHTML_append_def
        fire_next_def)
qed

section \<open>The analysis flow\<close>

lemma verdict_other_events:
  assumes "e \<noteq> TimerFire" and "e \<noteq> AnalyzeClick"
  shows "verdict (step e s) = verdict s"
  using assms
  by (cases e; simp add: verdict_def audioInput_onchange_def handleAudioUpload_def
      reader_onloadend_def playBtn_onclick_def Let_def split: option.splits)

lemma verdict_outside: "verdict (outside_animation s) = verdict s"
  by (simp add: verdict_def outside_animation_def)

lemma verdict_run_task: "\<not> is_analysis t \<Longrightarrow> verdict (run_task t s) = verdict s"
proof -
  assume "\<not> is_analysis t"
  then have "outside_animation (run_task t s) = outside_animation s"
    by (rule outside_animation_run_task)
  then have "verdict (outside_animation (run_task t s)) = verdict (outside_animation s)"
    by (rule arg_cong)
  then show ?thesis by (simp only: verdict_outside)
qed

lemma verdict_timers_update [simp]: "verdict (s\<lparr>timers := ts\<rparr>) = verdict s"
  by (simp add: verdict_def)

lemma verdict_step:
  assumes "analyses s = []" and "e \<noteq> AnalyzeClick"
  shows "verdict (step e s) = verdict s"
proof (cases "e = TimerFire")
  case False
  then show ?thesis using assms(2) by (simp add: verdict_other_events)
next
  case True
  note e = True
  from assms(1) show ?thesis
  proof (cases rule: timer_cases)
    case idle
    then show ?thesis using e by simp
  next
    case (scoring due target count rest)
    then have "step e s = run_task (ScoreTick target count) (s\<lparr>timers := rest\<rparr>)"
      using e by simp
    then show ?thesis by (simp add: verdict_run_task del: run_task.simps)
  next
    case (typing due str i rest)
    then have "step e s = run_task (TypeWriterCall str i) (s\<lparr>timers := rest\<rparr>)"
      using e by simp
    then show ?thesis by (simp add: verdict_run_task del: run_task.simps)
  qed
qed

text \<open>
  After the completion of the analysis the page shows the verdict of the mock object and
  both animations are under way.
\<close>

lemma completion_presents:
  assumes "timers s = []"
  shows "counted (score mockResponse) 0 (analysis_done k s)"
    and "typed (lit (''> [SYSTEM_REPORT]: '' @ details mockResponse)) 1 (analysis_done k s)"
    and "verdict (analysis_done k s)
          = (False, ''AI-GENERATED VOICE'', ''#fb7185'', ''Telugu Detected'', False,
             ''Verify Authenticity'')"
proof -
  let ?a = "s\<lparr>scanLines := removeAll k (scanLines s)\<rparr>"
  let ?str = "lit (''> [SYSTEM_REPORT]: '' @ details mockResponse)"
  have d: "analysis_done k s =
      (present mockResponse ?a)\<lparr>analyzeDisabled := False, analyzeLabel := ''Verify Authenticity''\<rparr>"
    by (simp add: analysis_done_def displayResults_def Let_def)
  have a: "scorings ?a = []" "typings ?a = []" "analyses ?a = []"
    using assms by (simp_all add: scorings_def typings_def analyses_def)
  note r = present_registers [OF a(1), of mockResponse]
  note t = present_types [OF a(2,3), of mockResponse]
  have sc: "scorings (analysis_done k s) = [ScoreTick (score mockResponse) 0]"
    unfolding d using r(1) by (simp add: scorings_def)
  have an: "analyses (analysis_done k s) = []"
    unfolding d using t(1) by (simp add: analyses_def)
  have ty: "typings (analysis_done k s) = [TypeWriterCall ?str 1]"
    unfolding d using t(2) by (simp add: typings_def)
  have ex: "explanationHTML (analysis_done k s) = shown (take 1 ?str)"
    unfolding d using t(3) by simp
  show "counted (score mockResponse) 0 (analysis_done k s)"
    by (rule counted_start [OF mock_halts sc an])
  show "typed ?str 1 (analysis_done k s)"
    by (rule typed_start [OF an _ ex]) (simp add: ty)
  show "verdict (analysis_done k s)
          = (False, ''AI-GENERATED VOICE'', ''#fb7185'', ''Telugu Detected'', False,
             ''Verify Authenticity'')"
    unfolding d
    by (simp add: verdict_def present_def Let_def typeWriter_def setTimeout_def animateScore_def
        setInterval_def mockResponse_def)
qed

lemma flow_step:
  assumes "(\<exists>d k. timers s = [(d, AnalysisDone k)])
         \<or> ((\<exists>j. counted (score mockResponse) j s)
            \<and> (\<exists>i. typed (lit (''> [SYSTEM_REPORT]: '' @ details mockResponse)) i s)
            \<and> verdict s = (False, ''AI-GENERATED VOICE'', ''#fb7185'', ''Telugu Detected'', False,
                 ''Verify Authenticity''))"
    and e: "e \<noteq> AnalyzeClick"
  shows "(\<exists>d k. timers (step e s) = [(d, AnalysisDone k)])
         \<or> ((\<exists>j. counted (score mockResponse) j (step e s))
            \<and> (\<exists>i. typed (lit (''> [SYSTEM_REPORT]: '' @ details mockResponse)) i (step e s))
            \<and> verdict (step e s) = (False, ''AI-GENERATED VOICE'', ''#fb7185'', ''Telugu Detected'',
                 False, ''Verify Authenticity''))"
  using assms(1)
proof
  assume "\<exists>d k. timers s = [(d, AnalysisDone k)]"
  then obtain d k where t: "timers s = [(d, AnalysisDone k)]" by blast
  show ?thesis
  proof (cases "e = TimerFire \<and> d \<le> now s")
    case True
    then have "step e s = analysis_done k (s\<lparr>timers := []\<rparr>)" using t by simp
    moreover have "timers (s\<lparr>timers := []\<rparr>) = []" by simp
    ultimately show ?thesis using completion_presents [of "s\<lparr>timers := []\<rparr>" k] by auto
  next
    case False
    have "timers (step e s) = timers s"
    proof (cases "e = TimerFire")
      case True
      then show ?thesis using False t by simp
    next
      case False
      then show ?thesis using e by (simp add: other_events_frame)
    qed
    then show ?thesis using t by simp
  qed
next
  assume fin: "(\<exists>j. counted (score mockResponse) j s)
      \<and> (\<exists>i. typed (lit (''> [SYSTEM_REPORT]: '' @ details mockResponse)) i s)
      \<and> verdict s = (False, ''AI-GENERATED VOICE'', ''#fb7185'', ''Telugu Detected'', False,
           ''Verify Authenticity'')"
  then obtain j i where c: "counted (score mockResponse) j s"
    and t: "typed (lit (''> [SYSTEM_REPORT]: '' @ details mockResponse)) i s" by blast
  have an: "analyses s = []" using c by (simp add: counted_def)
  from counted_step [OF mock_halts c e] typed_step [OF t e] verdict_step [OF an e] fin
  show ?thesis by (intro disjI2 conjI exI) simp_all
qed

lemma flow_run:
  "(\<exists>d k. timers s = [(d, AnalysisDone k)])
         \<or> ((\<exists>j. counted (score mockResponse) j s)
            \<and> (\<exists>i. typed (lit (''> [SYSTEM_REPORT]: '' @ details mockResponse)) i s)
            \<and> verdict s = (False, ''AI-GENERATED VOICE'', ''#fb7185'', ''Telugu Detected'', False,
                 ''Verify Authenticity'')) \<Longrightarrow>
   AnalyzeClick \<notin> set evs \<Longrightarrow>
   (\<exists>d k. timers (run evs s) = [(d, AnalysisDone k)])
         \<or> ((\<exists>j. counted (score mockResponse) j (run evs s))
            \<and> (\<exists>i. typed (lit (''> [SYSTEM_REPORT]: '' @ details mockResponse)) i (run evs s))
            \<and> verdict (run evs s) = (False, ''AI-GENERATED VOICE'', ''#fb7185'', ''Telugu Detected'',
                 False, ''Verify Authenticity''))"
proof (induction evs arbitrary: s)
  case Nil
  then show ?case by simp
next
  case (Cons e evs)
  from Cons.prems have e: "e \<noteq> AnalyzeClick" and evs: "AnalyzeClick \<notin> set evs" by auto
  from Cons.IH [OF flow_step [OF Cons.prems(1) e] evs] show ?case by simp
qed

lemma click_registers:
  assumes "timers s = []" and "\<not> analyzeDisabled s"
  shows "timers (step AnalyzeClick s) = [(now s + 3000, AnalysisDone (nextElement s))]"
  using assms by (simp add: analyzeBtn_onclick_frame)

lemma analysis_flow:
  assumes "timers s = []" and "\<not> analyzeDisabled s" and "AnalyzeClick \<notin> set evs"
    and "timers (run evs (step AnalyzeClick s)) = []"
  shows "scoreText (run evs (step AnalyzeClick s)) = Num (978 / 10)"
    and "explanationHTML (run evs (step AnalyzeClick s))
          = lit (''> [SYSTEM_REPORT]: '' @ details mockResponse)"
    and "verdict (run evs (step AnalyzeClick s))
          = (False, ''AI-GENERATED VOICE'', ''#fb7185'', ''Telugu Detected'', False,
             ''Verify Authenticity'')"
proof -
  let ?s = "run evs (step AnalyzeClick s)"
  let ?str = "lit (''> [SYSTEM_REPORT]: '' @ details mockResponse)"
  have "\<exists>d k. timers (step AnalyzeClick s) = [(d, AnalysisDone k)]"
    using click_registers [OF assms(1,2)] by blast
  then have "(\<exists>d k. timers ?s = [(d, AnalysisDone k)])
         \<or> ((\<exists>j. counted (score mockResponse) j ?s) \<and> (\<exists>i. typed ?str i ?s)
            \<and> verdict ?s = (False, ''AI-GENERATED VOICE'', ''#fb7185'', ''Telugu Detected'', False,
                 ''Verify Authenticity''))"
    by (intro flow_run [OF _ assms(3)] disjI1)
  with assms(4) obtain j i where c: "counted (score mockResponse) j ?s" and t: "typed ?str i ?s"
    and v: "verdict ?s = (False, ''AI-GENERATED VOICE'', ''#fb7185'', ''Telugu Detected'', False,
                 ''Verify Authenticity'')"
    by auto
  have "scoreText ?s = score mockResponse"
    by (rule counted_settled(2) [OF c scorings_empty_timers [OF assms(4)] mock_halts])
  then show "scoreText ?s = Num (978 / 10)" by (simp only: mock_score)
  have "explanationHTML ?s = shown ?str"
    by (rule typed_settled(2) [OF t typings_empty_timers [OF assms(4)]])
  then show "explanationHTML ?s = ?str" by (simp only: shown_plain [OF mock_text_plain])
  show "verdict ?s = (False, ''AI-GENERATED VOICE'', ''#fb7185'', ''Telugu Detected'', False,
                 ''Verify Authenticity'')" by (rule v)
qed

lemma analysis_flow_settles:
  assumes "timers s = []" and "\<not> analyzeDisabled s" and "373 \<le> n"
  shows "timers (drain n (step AnalyzeClick s)) = []"
proof (rule drain_settles)
  note t = click_registers [OF assms(1,2)]
  show "stopping (step AnalyzeClick s)" unfolding stopping_def t by simp
  have "work (step AnalyzeClick s) = 1 + last_tick (score mockResponse)
      + length (''> [SYSTEM_REPORT]: '' @ details mockResponse)"
    unfolding work_def t by (simp del: last_tick.simps)
  also have "\<dots> = 373" unfolding mock_ticks by (simp add: mockResponse_def)
  finally have "work (step AnalyzeClick s) = 373" .
  then show "work (step AnalyzeClick s) \<le> n" using assms(3) by simp
qed

lemma analysis_flow_left_alone:
  assumes "timers s = []" and "\<not> analyzeDisabled s" and "373 \<le> n"
  shows "timers (drain n (step AnalyzeClick s)) = []"
    and "scoreText (drain n (step AnalyzeClick s)) = Num (978 / 10)"
    and "explanationHTML (drain n (step AnalyzeClick s))
          = lit (''> [SYSTEM_REPORT]: '' @ details mockResponse)"
    and "verdict (drain n (step AnalyzeClick s))
          = (False, ''AI-GENERATED VOICE'', ''#fb7185'', ''Telugu Detected'', False,
             ''Verify Authenticity'')"
proof -
  show t: "timers (drain n (step AnalyzeClick s)) = []"
    by (rule analysis_flow_settles [OF assms])
  obtain evs where evs: "AnalyzeClick \<notin> set evs"
    "drain n (step AnalyzeClick s) = run evs (step AnalyzeClick s)"
    using drain_as_run by blast
  note f = analysis_flow [OF assms(1,2) evs(1) t [unfolded evs(2)], folded evs(2)]
  show "scoreText (drain n (step AnalyzeClick s)) = Num (978 / 10)" by (rule f(1))
  show "explanationHTML (drain n (step AnalyzeClick s))
          = lit (''> [SYSTEM_REPORT]: '' @ details mockResponse)" by (rule f(2))
  show "verdict (drain n (step AnalyzeClick s))
          = (False, ''AI-GENERATED VOICE'', ''#fb7185'', ''Telugu Detected'', False,
             ''Verify Authenticity'')" by (rule f(3))
qed

text \<open>
  Claim C1, as amended. Let the trigger be activated on a page with no timer pending and
  the trigger enabled, and let the page then go through any events \<open>evs\<close> other than a further
  click on the trigger (uploads, reader results, time passing, timers running). Once no timer
  is pending, the results surface is visible, the label and colour are those of the synthetic
  classification of the mock object, the badge is built from its language \<open>Telugu\<close>, the
  score display is exactly 97.8, the trigger is enabled with its default label, and the
  explanation text is \<open>> [SYSTEM_REPORT]: \<close> followed by the whole explanation string of the
  mock object. The page left alone is in that state after 373 timer callbacks or more (the
  completion, 196 runs of the count-up and 176 of the typewriter).
\<close>

theorem analysis_flow_result:
  assumes "timers s = []" and "\<not> analyzeDisabled s"
    and "AnalyzeClick \<notin> set evs" and "s' = run evs (step AnalyzeClick s)"
  shows "(timers s' = [] \<longrightarrow>
           resultsHidden s' = False
         \<and> isAI mockResponse
         \<and> labelText s' = ''AI-GENERATED VOICE''
         \<and> labelColor s' = ''#fb7185''
         \<and> lang mockResponse = ''Telugu''
         \<and> badgeText s' = ''Telugu Detected''
         \<and> score mockResponse = Num (978 / 10)
         \<and> scoreText s' = Num (978 / 10)
         \<and> explanationHTML s' = lit (''> [SYSTEM_REPORT]: '' @ details mockResponse)
         \<and> explanationHTML s'
              = lit ''> [SYSTEM_REPORT]: Neural vocoder artifacts detected. Spectral flux distribution is too consistent for human vocal cords. Lack of physiological micro-jitters in the 4kHz range.''
         \<and> analyzeDisabled s' = False
         \<and> analyzeLabel s' = ''Verify Authenticity'')
       \<and> (\<forall>n \<ge> 373.
             timers (drain n (step AnalyzeClick s)) = []
           \<and> scoreText (drain n (step AnalyzeClick s)) = Num (978 / 10)
           \<and> explanationHTML (drain n (step AnalyzeClick s))
                = lit (''> [SYSTEM_REPORT]: '' @ details mockResponse)
           \<and> verdict (drain n (step AnalyzeClick s))
                = (False, ''AI-GENERATED VOICE'', ''#fb7185'', ''Telugu Detected'', False,
                   ''Verify Authenticity'')
           \<and> (\<exists>xs. AnalyzeClick \<notin> set xs
                  \<and> drain n (step AnalyzeClick s) = run xs (step AnalyzeClick s)))"
proof -
  have a: "timers s' = [] \<longrightarrow>
           resultsHidden s' = False
         \<and> isAI mockResponse
         \<and> labelText s' = ''AI-GENERATED VOICE''
         \<and> labelColor s' = ''#fb7185''
         \<and> lang mockResponse = ''Telugu''
         \<and> badgeText s' = ''Telugu Detected''
         \<and> score mockResponse = Num (978 / 10)
         \<and> scoreText s' = Num (978 / 10)
         \<and> explanationHTML s' = lit (''> [SYSTEM_REPORT]: '' @ details mockResponse)
         \<and> explanationHTML s'
              = lit ''> [SYSTEM_REPORT]: Neural vocoder artifacts detected. Spectral flux distribution is too consistent for human vocal cords. Lack of physiological micro-jitters in the 4kHz range.''
         \<and> analyzeDisabled s' = False
         \<and> analyzeLabel s' = ''Verify Authenticity''"
  proof
    assume t: "timers s' = []"
    note f = analysis_flow [OF assms(1-3) t [unfolded assms(4)], folded assms(4)]
    have e: "lit (''> [SYSTEM_REPORT]: '' @ details mockResponse)
        = lit ''> [SYSTEM_REPORT]: Neural vocoder artifacts detected. Spectral flux distribution is too consistent for human vocal cords. Lack of physiological micro-jitters in the 4kHz range.''"
      by (simp add: mockResponse_def)
    have m: "isAI mockResponse" "lang mockResponse = ''Telugu''" by (simp_all add: mockResponse_def)
    from f(3) have v: "resultsHidden s' = False" "labelText s' = ''AI-GENERATED VOICE''"
      "labelColor s' = ''#fb7185''" "badgeText s' = ''Telugu Detected''"
      "analyzeDisabled s' = False" "analyzeLabel s' = ''Verify Authenticity''"
      by (simp_all add: verdict_def)
    from v m mock_score f(1) f(2) f(2) [unfolded e]
    show "resultsHidden s' = False
         \<and> isAI mockResponse
         \<and> labelText s' = ''AI-GENERATED VOICE''
         \<and> labelColor s' = ''#fb7185''
         \<and> lang mockResponse = ''Telugu''
         \<and> badgeText s' = ''Telugu Detected''
         \<and> score mockResponse = Num (978 / 10)
         \<and> scoreText s' = Num (978 / 10)
         \<and> explanationHTML s' = lit (''> [SYSTEM_REPORT]: '' @ details mockResponse)
         \<and> explanationHTML s'
              = lit ''> [SYSTEM_REPORT]: Neural vocoder artifacts detected. Spectral flux distribution is too consistent for human vocal cords. Lack of physiological micro-jitters in the 4kHz range.''
         \<and> analyzeDisabled s' = False
         \<and> analyzeLabel s' = ''Verify Authenticity''"
      by (intro conjI)
  qed
  have b: "\<forall>n \<ge> 373.
             timers (drain n (step AnalyzeClick s)) = []
           \<and> scoreText (drain n (step AnalyzeClick s)) = Num (978 / 10)
           \<and> explanationHTML (drain n (step AnalyzeClick s))
                = lit (''> [SYSTEM_REPORT]: '' @ details mockResponse)
           \<and> verdict (drain n (step AnalyzeClick s))
                = (False, ''AI-GENERATED VOICE'', ''#fb7185'', ''Telugu Detected'', False,
                   ''Verify Authenticity'')
           \<and> (\<exists>xs. AnalyzeClick \<notin> set xs
                  \<and> drain n (step AnalyzeClick s) = run xs (step AnalyzeClick s))"
    using analysis_flow_left_alone [OF assms(1,2)] drain_as_run by blast
  from a b show ?thesis by (rule conjI)
qed

theorem analysis_flow_result_witness:
  "timers (step (InputChange [\<lparr>name = ''sample.wav'', mime = ''audio/wav''\<rparr>]) init) = []
 \<and> \<not> analyzeDisabled (step (InputChange [\<lparr>name = ''sample.wav'', mime = ''audio/wav''\<rparr>]) init)
 \<and> fileName (step (InputChange [\<lparr>name = ''sample.wav'', mime = ''audio/wav''\<rparr>]) init) = ''sample.wav''
 \<and> timers (drain 373 (step AnalyzeClick (step (InputChange [\<lparr>name = ''sample.wav'', mime = ''audio/wav''\<rparr>]) init))) = []
 \<and> scoreText (drain 373 (step AnalyzeClick (step (InputChange [\<lparr>name = ''sample.wav'', mime = ''audio/wav''\<rparr>]) init))) = Num (978 / 10)
 \<and> explanationHTML (drain 373 (step AnalyzeClick (step (InputChange [\<lparr>name = ''sample.wav'', mime = ''audio/wav''\<rparr>]) init)))
      = lit (''> [SYSTEM_REPORT]: '' @ details mockResponse)
 \<and> verdict (drain 373 (step AnalyzeClick (step (InputChange [\<lparr>name = ''sample.wav'', mime = ''audio/wav''\<rparr>]) init)))
      = (False, ''AI-GENERATED VOICE'', ''#fb7185'', ''Telugu Detected'', False, ''Verify Authenticity'')
 \<and> (\<exists>xs. AnalyzeClick \<notin> set xs
      \<and> timers (run xs (step AnalyzeClick (step (InputChange [\<lparr>name = ''sample.wav'', mime = ''audio/wav''\<rparr>]) init))) = []
      \<and> resultsHidden (run xs (step AnalyzeClick (step (InputChange [\<lparr>name = ''sample.wav'', mime = ''audio/wav''\<rparr>]) init))) = False
      \<and> labelText (run xs (step AnalyzeClick (step (InputChange [\<lparr>name = ''sample.wav'', mime = ''audio/wav''\<rparr>]) init))) = ''AI-GENERATED VOICE''
      \<and> badgeText (run xs (step AnalyzeClick (step (InputChange [\<lparr>name = ''sample.wav'', mime = ''audio/wav''\<rparr>]) init))) = ''Telugu Detected''
      \<and> scoreText (run xs (step AnalyzeClick (step (InputChange [\<lparr>name = ''sample.wav'', mime = ''audio/wav''\<rparr>]) init))) = Num (978 / 10))"
proof -
  define u where "u = (step (InputChange [\<lparr>name = ''sample.wav'', mime = ''audio/wav''\<rparr>]) init)"
  have t: "timers u = []" and a: "\<not> analyzeDisabled u" and f: "fileName u = ''sample.wav''"
    by (simp_all add: u_def init_def audioInput_onchange_def handleAudioUpload_def at_index_def
        Let_def)
  have e: "AnalyzeClick \<notin> set []" by simp
  note th = analysis_flow_result [OF t a e refl, THEN conjunct2, rule_format, of 373]
  have n: "(373::nat) \<le> 373" by simp
  note d = th [OF n]
  from d obtain xs where xs: "AnalyzeClick \<notin> set xs"
    "drain 373 (step AnalyzeClick u) = run xs (step AnalyzeClick u)" by blast
  have tx: "timers (run xs (step AnalyzeClick u)) = []" using d xs(2) by simp
  note r = analysis_flow_result [OF t a xs(1) refl, THEN conjunct1, rule_format, OF tx]
  have "\<exists>xs. AnalyzeClick \<notin> set xs
      \<and> timers (run xs (step AnalyzeClick u)) = []
      \<and> resultsHidden (run xs (step AnalyzeClick u)) = False
      \<and> labelText (run xs (step AnalyzeClick u)) = ''AI-GENERATED VOICE''
      \<and> badgeText (run xs (step AnalyzeClick u)) = ''Telugu Detected''
      \<and> scoreText (run xs (step AnalyzeClick u)) = Num (978 / 10)"
    using xs(1) tx r by (intro exI [of _ xs]) simp
  then show ?thesis unfolding u_def [symmetric] using t a f d by simp
qed

text \<open>
  Claim C1 as stated fails in its last part. In the scenario (the file \<open>sample.wav\<close> is
  selected on the fresh page, the trigger is activated and the page is left alone) the
  explanation text does not end at the explanation string of the mock object, since
  \<open>displayResults\<close> types a report prefix before it.
\<close>

theorem explanation_is_not_bare_details:
  "explanationHTML (drain 373 (step AnalyzeClick (step (InputChange [\<lparr>name = ''sample.wav'', mime = ''audio/wav''\<rparr>]) init)))
     \<noteq> lit (details mockResponse)"
proof -
  define u where "u = (step (InputChange [\<lparr>name = ''sample.wav'', mime = ''audio/wav''\<rparr>]) init)"
  have t: "timers u = []" and a: "\<not> analyzeDisabled u"
    by (simp_all add: u_def init_def audioInput_onchange_def handleAudioUpload_def at_index_def
        Let_def)
  have "explanationHTML (drain 373 (step AnalyzeClick u))
      = lit (''> [SYSTEM_REPORT]: '' @ details mockResponse)"
    by (rule analysis_flow_left_alone(3) [OF t a order_refl])
  moreover have "length (lit (''> [SYSTEM_REPORT]: '' @ details mockResponse))
      \<noteq> length (lit (details mockResponse))"
    by simp
  ultimately have "explanationHTML (drain 373 (step AnalyzeClick u)) \<noteq> lit (details mockResponse)"
    by metis
  then show ?thesis unfolding u_def .
qed

end
